theory Spec2Isabelle
  imports Main "HOL-Library.AList"
begin

section \<open>The scanner of IOT-SCANNER-CY/scanner.py\<close>

text \<open>
  The development embeds \<^verbatim>\<open>scan_once\<close> and \<^verbatim>\<open>api_summary\<close> of
  \<^verbatim>\<open>src/IOT-SCANNER-CY/scanner.py\<close>. The three module globals \<^verbatim>\<open>devices\<close>,
  \<^verbatim>\<open>device_count_history\<close> and \<^verbatim>\<open>network_cidr\<close> are the fields of one record that
  every operation takes and returns. What nmap, netifaces and the clock answer during one
  call of \<^verbatim>\<open>scan_once\<close> is an input of the call (the record \<open>cycle\<close>).

  Conventions: a Python \<^verbatim>\<open>dict\<close> is an association list in insertion order with unique
  keys (\<open>AList.update\<close> overwrites in place or appends, as assignment to a dict key
  does); a Python \<^verbatim>\<open>str\<close> is a \<open>string\<close> of UTF-8 bytes; a value that may be
  \<^verbatim>\<open>None\<close> is an \<open>option\<close>; \<^verbatim>\<open>datetime.timestamp()\<close> is read in whole seconds,
  an \<open>int\<close>.
\<close>

subsection \<open>Settings\<close>

definition SCAN_INTERVAL_SEC :: int where
  "SCAN_INTERVAL_SEC = 15"

definition COMMON_PORTS :: "int list" where
  "COMMON_PORTS = [21, 22, 23, 80, 443, 554, 8080]"

text \<open>The em dash of the advisory texts, in UTF-8.\<close>

definition em_dash :: string where
  "em_dash = [CHR 0xE2, CHR 0x80, CHR 0x94]"

definition VULN_HINTS :: "(int \<times> string \<times> string) list" where
  "VULN_HINTS =
    [(21, ''HIGH'', ''FTP (21) '' @ em_dash @ '' plaintext auth; disable or enforce TLS.''),
     (22, ''INFO'', ''SSH (22) '' @ em_dash @ '' strong password/keys recommended.''),
     (23, ''CRITICAL'', ''Telnet (23) '' @ em_dash @ '' unencrypted; disable immediately.''),
     (80, ''MEDIUM'', ''HTTP (80) '' @ em_dash @ '' no TLS; prefer HTTPS.''),
     (443, ''INFO'', ''HTTPS (443) '' @ em_dash @ '' verify cert/TLS settings.''),
     (554, ''MEDIUM'', ''RTSP (554) '' @ em_dash @ '' ensure stream auth/firmware updated.''),
     (8080, ''MEDIUM'', ''Alt HTTP (8080) '' @ em_dash @ '' often admin UI; require auth.'')]"

text \<open>\<^verbatim>\<open>p in VULN_HINTS\<close> and \<^verbatim>\<open>VULN_HINTS[p]\<close>, read only under that test.\<close>

definition in_VULN_HINTS :: "int \<Rightarrow> bool" where
  "in_VULN_HINTS p = (p \<in> set (map fst VULN_HINTS))"

definition classify :: "int \<Rightarrow> (string \<times> string) option" where
  "classify p = map_of VULN_HINTS p"

text \<open>The f-string \<^verbatim>\<open>f"[{sev}] {msg}"\<close>.\<close>

definition finding :: "string \<times> string \<Rightarrow> string" where
  "finding sm = ''['' @ fst sm @ ''] '' @ snd sm"

subsection \<open>Global state\<close>

record device =
  ip :: string
  mac :: "string option"
  vendor :: "string option"
  open_ports :: "int list"
  vulns :: "string list"
  last_seen :: int

record registry =
  devices :: "(string \<times> device) list"
  device_count_history :: "int list"
  network_cidr :: string

definition initial :: registry where
  "initial = \<lparr>devices = [], device_count_history = [], network_cidr = ''0.0.0.0/0''\<rparr>"

text \<open>Python truthiness of an optional string: \<^verbatim>\<open>None\<close> and \<^verbatim>\<open>""\<close> are false.\<close>

fun truthy :: "string option \<Rightarrow> bool" where
  "truthy None = False"
| "truthy (Some s) = (s \<noteq> [])"

subsection \<open>What the probes answer in one cycle\<close>

text \<open>
  The link identity of a host (lines 93 to 100): reading the addresses may raise; otherwise
  it gives the MAC or \<^verbatim>\<open>None\<close>, and the vendor table is asked only for a true MAC, which
  may raise too.
\<close>

datatype vendor_probe = VendorRaises | Vendor "string option"

datatype ident_probe = AddressesRaise | Addresses "string option" vendor_probe

fun link_identity :: "ident_probe \<Rightarrow> string option \<times> string option" where
  "link_identity AddressesRaise = (None, None)"
| "link_identity (Addresses m v) =
     (if truthy m
      then (m, case v of VendorRaises \<Rightarrow> None | Vendor x \<Rightarrow> x)
      else (m, None))"

text \<open>
  The port scan of a host (lines 102 to 110) is the sequence of what the \<^verbatim>\<open>try\<close> block
  meets: a port with its state, or an exception, at which the block is left with the ports
  appended so far. A scan that raises at once is \<open>Raises\<close> at the head.
\<close>

datatype scan_event = PortEntry int string | Raises

fun collect_open :: "scan_event list \<Rightarrow> int list" where
  "collect_open [] = []"
| "collect_open (Raises # es) = []"
| "collect_open (PortEntry p s # es) =
     (if s = ''open'' then p # collect_open es else collect_open es)"

text \<open>
  One host of \<^verbatim>\<open>nm.all_hosts()\<close>: \<open>hstate\<close> is what \<^verbatim>\<open>nm[host].state()\<close> gives,
  \<open>None\<close> when it raises \<^verbatim>\<open>KeyError\<close>.
\<close>

record host_probe =
  host :: string
  hstate :: "string option"
  ident :: ident_probe
  port_scan :: "scan_event list"

text \<open>
  One call of \<^verbatim>\<open>scan_once\<close>: the answer of \<^verbatim>\<open>get_local_network()\<close>, the clock, and
  the sweep \<^verbatim>\<open>nm.scan(hosts=local_cidr, arguments='-sn -n')\<close>, \<open>None\<close> when it raises.
\<close>

record cycle =
  local_cidr :: string
  now :: int
  sweep :: "host_probe list option"

subsection \<open>scan_once\<close>

text \<open>Lines 111 to 117: the sorted distinct ports and their findings.\<close>

definition sorted_ports :: "scan_event list \<Rightarrow> int list" where
  "sorted_ports es = sort (remdups (collect_open es))"

fun vulns_of :: "int list \<Rightarrow> string list" where
  "vulns_of [] = []"
| "vulns_of (p # ps) =
     (if in_VULN_HINTS p
      then (case classify p of
              Some sm \<Rightarrow> finding sm # vulns_of ps
            | None \<Rightarrow> vulns_of ps)
      else vulns_of ps)"

text \<open>
  The first critical section, lines 119 to 135. \<open>merge_record\<close> is what the block
  does to \<^verbatim>\<open>rec\<close>, given what \<^verbatim>\<open>devices.get(host, ...)\<close> finds.
\<close>

definition merge_record ::
  "int \<Rightarrow> string \<Rightarrow> string option \<Rightarrow> string option \<Rightarrow> int list \<Rightarrow> string list
     \<Rightarrow> device option \<Rightarrow> device" where
  "merge_record t h m v ports vs old =
     (let rec0 = (case old of
                    Some r \<Rightarrow> r
                  | None \<Rightarrow> \<lparr>ip = h, mac = m, vendor = v, open_ports = [], vulns = [],
                             last_seen = t\<rparr>);
          rec1 = (if truthy m \<and> \<not> truthy (mac rec0) then rec0\<lparr>mac := m\<rparr> else rec0);
          rec2 = (if truthy v \<and> \<not> truthy (vendor rec1) then rec1\<lparr>vendor := v\<rparr> else rec1)
      in rec2\<lparr>open_ports := ports, vulns := vs, last_seen := t\<rparr>)"

definition merge_host ::
  "int \<Rightarrow> string \<Rightarrow> string option \<Rightarrow> string option \<Rightarrow> int list \<Rightarrow> string list
     \<Rightarrow> registry \<Rightarrow> registry" where
  "merge_host t h m v ports vs st =
     st\<lparr>devices :=
          AList.update h (merge_record t h m v ports vs (map_of (devices st) h)) (devices st)\<rparr>"

text \<open>The second critical section, lines 137 to 146.\<close>

definition stale_ips :: "int \<Rightarrow> string set \<Rightarrow> (string \<times> device) list \<Rightarrow> string list" where
  "stale_ips cutoff seen ds =
     map fst (filter (\<lambda>(i, r). last_seen r < cutoff \<and> i \<notin> seen) ds)"

definition finish_cycle :: "string \<Rightarrow> int \<Rightarrow> string set \<Rightarrow> registry \<Rightarrow> registry" where
  "finish_cycle cidr t seen st =
     (let cutoff = t - SCAN_INTERVAL_SEC * 3;
          ds = foldl (\<lambda>d i. AList.delete i d) (devices st) (stale_ips cutoff seen (devices st));
          hist = device_count_history st @ [int (length ds)];
          hist' = (if length hist > 200 then drop (length hist - 200) hist else hist)
      in \<lparr>devices = ds, device_count_history = hist', network_cidr = cidr\<rparr>)"

text \<open>Lines 93 to 135 for one host that is up: its probes, then the merge.\<close>

definition probe_and_merge :: "int \<Rightarrow> host_probe \<Rightarrow> registry \<Rightarrow> registry" where
  "probe_and_merge t h st =
     (let (m, v) = link_identity (ident h);
          ports = sorted_ports (port_scan h);
          vs = vulns_of ports
      in merge_host t (host h) m v ports vs st)"

text \<open>The loop over the hosts, lines 84 to 135, threading \<^verbatim>\<open>seen_ips\<close> and the state.\<close>

fun scan_hosts ::
  "int \<Rightarrow> host_probe list \<Rightarrow> string set \<Rightarrow> registry \<Rightarrow> string set \<times> registry" where
  "scan_hosts t [] seen st = (seen, st)"
| "scan_hosts t (h # hs) seen st =
     (if hstate h \<noteq> Some ''up'' then scan_hosts t hs seen st
      else scan_hosts t hs (insert (host h) seen) (probe_and_merge t h st))"

definition scan_once :: "cycle \<Rightarrow> registry \<Rightarrow> registry" where
  "scan_once c st =
     (case sweep c of
        None \<Rightarrow> st
      | Some hs \<Rightarrow>
          (let (seen, st') = scan_hosts (now c) hs {} st
           in finish_cycle (local_cidr c) (now c) seen st'))"

text \<open>Successive calls of \<^verbatim>\<open>scan_once\<close>, as \<^verbatim>\<open>background_scanner\<close> makes them.\<close>

fun run_cycles :: "registry \<Rightarrow> cycle list \<Rightarrow> registry" where
  "run_cycles st [] = st"
| "run_cycles st (c # cs) = run_cycles (scan_once c st) cs"


subsection \<open>api_summary\<close>

record row =
  row_ip :: string
  row_mac :: string
  row_vendor :: string
  row_open_ports :: "int list"
  row_vulns :: "string list"
  row_last_seen :: int

record summary =
  s_network :: string
  s_total :: int
  s_safe :: int
  s_vulnerable :: int
  s_history :: "int list"
  s_vuln_ports :: "(int \<times> int) list"
  s_devices :: "row list"

text \<open>\<^verbatim>\<open>x or "Unknown"\<close>.\<close>

fun or_unknown :: "string option \<Rightarrow> string" where
  "or_unknown None = ''Unknown''"
| "or_unknown (Some s) = (if s = [] then ''Unknown'' else s)"

text \<open>\<^verbatim>\<open>port_tally.get(p, 0)\<close>.\<close>

definition tally_get :: "(int \<times> int) list \<Rightarrow> int \<Rightarrow> int" where
  "tally_get pt p = (case map_of pt p of None \<Rightarrow> 0 | Some n \<Rightarrow> n)"

text \<open>The inner loop, lines 197 to 199.\<close>

fun tally_ports :: "int list \<Rightarrow> (int \<times> int) list \<Rightarrow> (int \<times> int) list" where
  "tally_ports [] pt = pt"
| "tally_ports (p # ps) pt =
     (if in_VULN_HINTS p
      then tally_ports ps (AList.update p (tally_get pt p + 1) pt)
      else tally_ports ps pt)"

text \<open>
  The row of a device, lines 200 to 207. It keeps the timestamp; the \<^verbatim>\<open>strftime\<close>
  rendering is left out.
\<close>

definition device_row :: "string \<Rightarrow> device \<Rightarrow> row" where
  "device_row i r =
     \<lparr>row_ip = i, row_mac = or_unknown (mac r), row_vendor = or_unknown (vendor r),
      row_open_ports = open_ports r, row_vulns = vulns r, row_last_seen = last_seen r\<rparr>"

text \<open>
  The outer loop, lines 194 to 207, threading \<^verbatim>\<open>vulnerable\<close>, \<^verbatim>\<open>port_tally\<close> and
  \<^verbatim>\<open>rows\<close>.
\<close>

fun summary_loop ::
  "(string \<times> device) list \<Rightarrow> int \<times> (int \<times> int) list \<times> row list
     \<Rightarrow> int \<times> (int \<times> int) list \<times> row list" where
  "summary_loop [] acc = acc"
| "summary_loop ((i, r) # ds) (vulnerable, pt, rows) =
     (let is_vuln = (if vulns r \<noteq> [] then 1 else 0)
      in summary_loop ds
           (vulnerable + is_vuln, tally_ports (open_ports r) pt, rows @ [device_row i r]))"

text \<open>
  The handler reads the globals under the lock and assigns none of them: it returns the
  response together with the state it leaves.
\<close>

definition api_summary :: "registry \<Rightarrow> summary \<times> registry" where
  "api_summary st =
     (let total = int (length (devices st));
          (vulnerable, pt, rows) = summary_loop (devices st) (0, [], []);
          safe = total - vulnerable;
          h = device_count_history st
      in (\<lparr>s_network = network_cidr st, s_total = total, s_safe = safe,
            s_vulnerable = vulnerable, s_history = drop (length h - 60) h,
            s_vuln_ports = pt, s_devices = rows\<rparr>,
          st))"

subsection \<open>The lock\<close>

text \<open>
  \<^verbatim>\<open>scan_once\<close> takes the lock once for each host that is up and once more at the end;
  between two \<^verbatim>\<open>with lock\<close> blocks it holds no lock (it is probing the next host) and
  reads none of the globals. So one call is a sequence of critical sections, fixed by what the
  probes answer:
\<close>

datatype csection =
    MergeHost int host_probe
  | FinishCycle string int "string set"

fun exec_section :: "csection \<Rightarrow> registry \<Rightarrow> registry" where
  "exec_section (MergeHost t h) st = probe_and_merge t h st"
| "exec_section (FinishCycle cidr t seen) st = finish_cycle cidr t seen st"

fun sections_of_hosts :: "string \<Rightarrow> int \<Rightarrow> host_probe list \<Rightarrow> string set \<Rightarrow> csection list" where
  "sections_of_hosts cidr t [] seen = [FinishCycle cidr t seen]"
| "sections_of_hosts cidr t (h # hs) seen =
     (if hstate h \<noteq> Some ''up'' then sections_of_hosts cidr t hs seen
      else MergeHost t h # sections_of_hosts cidr t hs (insert (host h) seen))"

definition critical_sections :: "cycle \<Rightarrow> csection list" where
  "critical_sections c =
     (case sweep c of
        None \<Rightarrow> []
      | Some hs \<Rightarrow> sections_of_hosts (local_cidr c) (now c) hs {})"

definition exec_sections :: "csection list \<Rightarrow> registry \<Rightarrow> registry" where
  "exec_sections xs st = foldl (\<lambda>s x. exec_section x s) st xs"

text \<open>
  A configuration of one writer (\<^verbatim>\<open>scan_once\<close>) and one reader (\<^verbatim>\<open>api_summary\<close>,
  whose whole body is one \<^verbatim>\<open>with lock\<close> block): the shared state, the critical sections
  the writer has still to run, and the response of the reader once it has run. A step runs
  one critical section of either thread.
\<close>

type_synonym config = "registry \<times> csection list \<times> summary option"

inductive conc_step :: "config \<Rightarrow> config \<Rightarrow> bool" where
  writer: "conc_step (st, x # xs, obs) (exec_section x st, xs, obs)"
| reader: "conc_step (st, xs, None) (snd (api_summary st), xs, Some (fst (api_summary st)))"

code_pred conc_step .

text \<open>An interleaving of the two calls from \<open>st\<close>, ending in \<open>st'\<close> with response \<open>obs\<close>.\<close>

definition interleaving :: "cycle \<Rightarrow> registry \<Rightarrow> registry \<Rightarrow> summary \<Rightarrow> bool" where
  "interleaving c st st' obs =
     conc_step\<^sup>*\<^sup>* (st, critical_sections c, None) (st', [], Some obs)"

subsection \<open>Notions used in the statements\<close>

text \<open>The hosts of a sweep that are up: what the loop leaves in \<^verbatim>\<open>seen_ips\<close>.\<close>

definition seen_ips :: "host_probe list \<Rightarrow> string set" where
  "seen_ips hs = host ` {h \<in> set hs. hstate h = Some ''up''}"

text \<open>The record that lines 93 to 135 store for a host, given the record found.\<close>

definition host_record :: "int \<Rightarrow> host_probe \<Rightarrow> device option \<Rightarrow> device" where
  "host_record t h old =
     merge_record t (host h) (fst (link_identity (ident h))) (snd (link_identity (ident h)))
       (sorted_ports (port_scan h)) (vulns_of (sorted_ports (port_scan h))) old"

text \<open>The slice \<^verbatim>\<open>xs[-n:]\<close> for a positive \<open>n\<close>.\<close>

definition lastn :: "nat \<Rightarrow> 'a list \<Rightarrow> 'a list" where
  "lastn n xs = drop (length xs - n) xs"

text \<open>The device counts that successive cycles leave, one for each cycle.\<close>

fun samples :: "registry \<Rightarrow> cycle list \<Rightarrow> int list" where
  "samples st [] = []"
| "samples st (c # cs) = int (length (devices (scan_once c st))) # samples (scan_once c st) cs"

text \<open>A record keeps the identity of an earlier one: a true MAC or vendor is unchanged.\<close>

definition keeps_identity :: "device \<Rightarrow> device \<Rightarrow> bool" where
  "keeps_identity r r' \<longleftrightarrow>
     (truthy (mac r) \<longrightarrow> mac r' = mac r) \<and> (truthy (vendor r) \<longrightarrow> vendor r' = vendor r)"

text \<open>
  The occurrences of a port in the port lists of the devices: what \<^verbatim>\<open>port_tally\<close> counts.
\<close>

definition open_count :: "(string \<times> device) list \<Rightarrow> int \<Rightarrow> int" where
  "open_count ds p = (\<Sum>(i, r)\<leftarrow>ds. int (count_list (open_ports r) p))"

text \<open>Every stored port list is free of repetitions, as \<^verbatim>\<open>sorted(set(...))\<close> leaves it.\<close>

definition ports_distinct :: "registry \<Rightarrow> bool" where
  "ports_distinct st \<longleftrightarrow> (\<forall>(i, r) \<in> set (devices st). distinct (open_ports r))"

text \<open>The hosts of a sweep that are up, in the order of the sweep.\<close>

definition up_hosts :: "host_probe list \<Rightarrow> host_probe list" where
  "up_hosts hs = filter (\<lambda>h. hstate h = Some ''up'') hs"

text \<open>The state once the first hosts of a cycle have been merged, and nothing else done.\<close>

definition merged :: "int \<Rightarrow> host_probe list \<Rightarrow> registry \<Rightarrow> registry" where
  "merged t hs st = foldl (\<lambda>s h. probe_and_merge t h s) st hs"

subsection \<open>Sample inputs\<close>

text \<open>A host that answers the sweep, with no link identity, and its port scan.\<close>

definition up_host :: "string \<Rightarrow> scan_event list \<Rightarrow> host_probe" where
  "up_host i es = \<lparr>host = i, hstate = Some ''up'', ident = Addresses None (Vendor None),
                   port_scan = es\<rparr>"

text \<open>A cycle at a time, with the hosts of its sweep.\<close>

definition cycle_at :: "int \<Rightarrow> host_probe list \<Rightarrow> cycle" where
  "cycle_at t hs = \<lparr>local_cidr = ''192.168.1.0/24'', now = t, sweep = Some hs\<rparr>"

text \<open>A cycle whose sweep raises.\<close>

definition failed_cycle_at :: "int \<Rightarrow> cycle" where
  "failed_cycle_at t = \<lparr>local_cidr = ''192.168.1.0/24'', now = t, sweep = None\<rparr>"

text \<open>A stored device without identity, ports or findings.\<close>

definition bare_device :: "string \<Rightarrow> int \<Rightarrow> device" where
  "bare_device i t = \<lparr>ip = i, mac = None, vendor = None, open_ports = [], vulns = [],
                      last_seen = t\<rparr>"

section \<open>Properties\<close>

subsection \<open>The table\<close>

lemma distinct_VULN_HINTS: "distinct (map fst VULN_HINTS)"
  by (simp add: VULN_HINTS_def)

lemma in_VULN_HINTS_classify: "in_VULN_HINTS p \<longleftrightarrow> classify p \<noteq> None"
  unfolding in_VULN_HINTS_def classify_def
  by (metis domIff dom_map_of_conv_image_fst set_map)

lemma in_VULN_HINTS_iff: "in_VULN_HINTS p \<longleftrightarrow> p \<in> {21, 22, 23, 80, 443, 554, 8080}"
  by (auto simp add: in_VULN_HINTS_def VULN_HINTS_def)

subsection \<open>The two critical sections and the loop\<close>

lemma foldl_delete_filter:
  "foldl (\<lambda>d i. AList.delete i d) ds ks = filter (\<lambda>(k, v). k \<notin> set ks) ds"
proof (induction ks arbitrary: ds)
  case Nil
  then show ?case by simp
next
  case (Cons k ks)
  have "filter (\<lambda>(k', v). k' \<notin> set ks) (AList.delete k ds)
      = filter (\<lambda>(k', v). k' \<notin> set (k # ks)) ds"
    by (induction ds) (auto simp add: AList.delete_eq)
  with Cons show ?case by simp
qed

lemma map_of_filter_keys:
  "map_of (filter (\<lambda>(k, v). P k) ds) i = (if P i then map_of ds i else None)"
  by (induction ds) auto

lemma mem_stale_ips:
  "i \<in> set (stale_ips cutoff seen ds) \<longleftrightarrow>
     (\<exists>r. (i, r) \<in> set ds \<and> last_seen r < cutoff \<and> i \<notin> seen)"
  by (force simp add: stale_ips_def)

lemma mem_stale_ips_distinct:
  assumes "distinct (map fst ds)"
  shows "i \<in> set (stale_ips cutoff seen ds) \<longleftrightarrow>
     (\<exists>r. map_of ds i = Some r \<and> last_seen r < cutoff \<and> i \<notin> seen)"
  using assms by (simp add: mem_stale_ips)

lemma devices_finish_cycle:
  "devices (finish_cycle cidr t seen st) =
     filter (\<lambda>(k, v). k \<notin> set (stale_ips (t - 45) seen (devices st))) (devices st)"
  by (simp add: finish_cycle_def Let_def SCAN_INTERVAL_SEC_def foldl_delete_filter)

lemma history_finish_cycle:
  "device_count_history (finish_cycle cidr t seen st) =
     (let h = device_count_history st @ [int (length (devices (finish_cycle cidr t seen st)))]
      in drop (length h - 200) h)"
  by (simp add: finish_cycle_def Let_def)

lemma network_finish_cycle: "network_cidr (finish_cycle cidr t seen st) = cidr"
  by (simp add: finish_cycle_def Let_def)

lemma lookup_merge_host:
  "map_of (devices (merge_host t h m v ports vs st)) i =
     (if i = h then Some (merge_record t h m v ports vs (map_of (devices st) h))
      else map_of (devices st) i)"
  by (simp add: merge_host_def update_conv')

lemma merge_host_others:
  "device_count_history (merge_host t h m v ports vs st) = device_count_history st"
  "network_cidr (merge_host t h m v ports vs st) = network_cidr st"
  by (simp_all add: merge_host_def)

lemma probe_and_merge_eq:
  "probe_and_merge t h st =
     st\<lparr>devices := AList.update (host h) (host_record t h (map_of (devices st) (host h)))
                       (devices st)\<rparr>"
  by (simp add: probe_and_merge_def host_record_def merge_host_def Let_def split: prod.splits)

lemma lookup_probe_and_merge:
  "map_of (devices (probe_and_merge t h st)) i =
     (if i = host h then Some (host_record t h (map_of (devices st) (host h)))
      else map_of (devices st) i)"
  by (simp add: probe_and_merge_eq update_conv')

lemma probe_and_merge_others:
  "device_count_history (probe_and_merge t h st) = device_count_history st"
  "network_cidr (probe_and_merge t h st) = network_cidr st"
  by (simp_all add: probe_and_merge_eq)

lemma keys_probe_and_merge:
  "fst ` set (devices (probe_and_merge t h st)) = insert (host h) (fst ` set (devices st))"
  by (simp add: probe_and_merge_eq dom_update)

lemma distinct_probe_and_merge:
  "distinct (map fst (devices st)) \<Longrightarrow> distinct (map fst (devices (probe_and_merge t h st)))"
  by (simp add: probe_and_merge_eq distinct_update)

lemma fst_scan_hosts: "fst (scan_hosts t hs seen st) = seen \<union> seen_ips hs"
  by (induction hs arbitrary: seen st) (auto simp add: seen_ips_def)

lemma scan_hosts_others:
  "device_count_history (snd (scan_hosts t hs seen st)) = device_count_history st"
  "network_cidr (snd (scan_hosts t hs seen st)) = network_cidr st"
  by (induction hs arbitrary: seen st) (simp_all add: probe_and_merge_others)

lemma distinct_scan_hosts:
  "distinct (map fst (devices st)) \<Longrightarrow>
   distinct (map fst (devices (snd (scan_hosts t hs seen st))))"
  by (induction hs arbitrary: seen st) (simp_all add: distinct_probe_and_merge)

lemma lookup_scan_hosts_unseen:
  "i \<notin> seen_ips hs \<Longrightarrow>
   map_of (devices (snd (scan_hosts t hs seen st))) i = map_of (devices st) i"
proof (induction hs arbitrary: seen st)
  case Nil
  then show ?case by simp
next
  case (Cons h hs)
  then have "i \<notin> seen_ips hs" by (auto simp add: seen_ips_def)
  moreover have "hstate h = Some ''up'' \<Longrightarrow> i \<noteq> host h"
    using Cons.prems by (auto simp add: seen_ips_def)
  ultimately show ?case using Cons.IH by (simp add: lookup_probe_and_merge)
qed

lemma lookup_scan_hosts_seen:
  assumes "distinct (map host hs)" "h \<in> set hs" "hstate h = Some ''up''"
  shows "map_of (devices (snd (scan_hosts t hs seen st))) (host h) =
           Some (host_record t h (map_of (devices st) (host h)))"
  using assms
proof (induction hs arbitrary: seen st)
  case Nil
  then show ?case by simp
next
  case (Cons x hs)
  show ?case
  proof (cases "x = h")
    case True
    with Cons.prems have "host h \<notin> seen_ips hs" by (auto simp add: seen_ips_def)
    with True Cons.prems show ?thesis
      by (simp add: lookup_scan_hosts_unseen lookup_probe_and_merge)
  next
    case False
    with Cons.prems have h: "h \<in> set hs" "distinct (map host hs)" "host x \<noteq> host h" by auto
    with Cons.IH Cons.prems(3) show ?thesis
      by (simp add: lookup_probe_and_merge)
  qed
qed

lemma scan_once_Some:
  "sweep c = Some hs \<Longrightarrow>
   scan_once c st = finish_cycle (local_cidr c) (now c) (seen_ips hs) (snd (scan_hosts (now c) hs {} st))"
  using fst_scan_hosts [of "now c" hs "{}" st]
  by (cases "scan_hosts (now c) hs {} st") (simp add: scan_once_def)

lemma scan_once_None: "sweep c = None \<Longrightarrow> scan_once c st = st"
  by (simp add: scan_once_def)

subsection \<open>Classification\<close>

text \<open>
  Claim C9. Classification is a function of the port number alone (\<open>classify\<close> and
  \<open>vulns_of\<close> take no state, so equal ports give equal results): every port of the
  table yields exactly its pair of severity and advisory text, rendered as one finding, and
  every port absent from the table yields no finding.
\<close>

theorem classify_table:
  "(\<forall>(p, sm) \<in> set VULN_HINTS. classify p = Some sm \<and> vulns_of [p] = [finding sm]) \<and>
   (\<forall>p. p \<notin> fst ` set VULN_HINTS \<longrightarrow> classify p = None \<and> vulns_of [p] = [])"
proof (intro conjI ballI allI impI)
  fix x assume x: "x \<in> set VULN_HINTS"
  obtain p sm where [simp]: "x = (p, sm)" by (cases x)
  from x have c: "classify p = Some sm"
    unfolding classify_def using distinct_VULN_HINTS by simp
  with x have "in_VULN_HINTS p" by (simp add: in_VULN_HINTS_classify)
  with c show "case x of (p, sm) \<Rightarrow> classify p = Some sm \<and> vulns_of [p] = [finding sm]"
    by simp
next
  fix p :: int assume "p \<notin> fst ` set VULN_HINTS"
  then show "classify p = None" unfolding classify_def by (simp add: map_of_eq_None_iff)
next
  fix p :: int assume "p \<notin> fst ` set VULN_HINTS"
  then have "\<not> in_VULN_HINTS p" by (simp add: in_VULN_HINTS_def)
  then show "vulns_of [p] = []" by simp
qed

theorem classify_table_witness:
  "classify 23 =
     Some (''CRITICAL'', ''Telnet (23) '' @ em_dash @ '' unencrypted; disable immediately.'')
   \<and> vulns_of [23] =
       [''[CRITICAL] Telnet (23) '' @ em_dash @ '' unencrypted; disable immediately.'']
   \<and> classify 25 = None \<and> vulns_of [25] = []"
proof -
  have a: "(23, ''CRITICAL'', ''Telnet (23) '' @ em_dash @ '' unencrypted; disable immediately.'')
             \<in> set VULN_HINTS"
    by (simp add: VULN_HINTS_def)
  have b: "(25::int) \<notin> fst ` set VULN_HINTS"
    by (simp add: VULN_HINTS_def)
  from classify_table a b show ?thesis
    by (fastforce simp add: finding_def)
qed

lemma keys_scan_hosts:
  "fst ` set (devices (snd (scan_hosts t hs seen st))) = fst ` set (devices st) \<union> seen_ips hs"
  by (induction hs arbitrary: seen st) (auto simp add: seen_ips_def keys_probe_and_merge)

lemma lookup_scan_hosts_seen_Some:
  "i \<in> seen_ips hs \<Longrightarrow> \<exists>r. map_of (devices (snd (scan_hosts t hs seen st))) i = Some r"
proof -
  assume "i \<in> seen_ips hs"
  then have "i \<in> fst ` set (devices (snd (scan_hosts t hs seen st)))"
    by (simp add: keys_scan_hosts)
  then show ?thesis
    by (metis domD dom_map_of_conv_image_fst)
qed

lemma lookup_finish_cycle:
  "map_of (devices (finish_cycle cidr t seen st)) i =
     (if i \<in> set (stale_ips (t - 45) seen (devices st)) then None else map_of (devices st) i)"
  by (simp add: devices_finish_cycle map_of_filter_keys)

lemma lookup_scan_once_seen:
  assumes "sweep c = Some hs" "i \<in> seen_ips hs"
  shows "map_of (devices (scan_once c st)) i =
           map_of (devices (snd (scan_hosts (now c) hs {} st))) i"
  using assms by (simp add: scan_once_Some lookup_finish_cycle mem_stale_ips)

lemma lookup_scan_once_unseen:
  assumes "distinct (map fst (devices st))" "sweep c = Some hs" "i \<notin> seen_ips hs"
  shows "map_of (devices (scan_once c st)) i =
           (case map_of (devices st) i of
              None \<Rightarrow> None
            | Some r \<Rightarrow> if last_seen r < now c - 45 then None else Some r)"
proof -
  let ?st = "snd (scan_hosts (now c) hs {} st)"
  have d: "distinct (map fst (devices ?st))"
    using assms(1) by (rule distinct_scan_hosts)
  have l: "map_of (devices ?st) i = map_of (devices st) i"
    using assms(3) by (rule lookup_scan_hosts_unseen)
  show ?thesis
    using assms(2,3) l
    by (simp add: scan_once_Some lookup_finish_cycle mem_stale_ips_distinct [OF d]
        split: option.splits)
qed

lemma seen_ips_simps:
  "seen_ips [] = {}"
  "seen_ips (h # hs) = (if hstate h = Some ''up'' then insert (host h) (seen_ips hs) else seen_ips hs)"
  by (auto simp add: seen_ips_def)

subsection \<open>Eviction\<close>

text \<open>
  Claim C2. In a cycle whose sweep returned the hosts \<open>hs\<close> at time \<open>now c\<close>, a device of
  the registry is removed if and only if its \<open>last_seen\<close> is strictly earlier than
  \<open>now c\<close> minus three scan intervals and its address is not among the hosts seen in this
  cycle; a host seen in this cycle is in the registry afterwards whatever its timestamp; and
  every device left was seen within the last three intervals or in this cycle.
\<close>

theorem eviction_rule:
  assumes "distinct (map fst (devices st))" and "sweep c = Some hs"
  shows "(\<forall>i r. map_of (devices st) i = Some r \<longrightarrow>
            (map_of (devices (scan_once c st)) i = None \<longleftrightarrow>
               last_seen r < now c - SCAN_INTERVAL_SEC * 3 \<and> i \<notin> seen_ips hs))
       \<and> (\<forall>i \<in> seen_ips hs. map_of (devices (scan_once c st)) i \<noteq> None)
       \<and> (\<forall>(i, r) \<in> set (devices (scan_once c st)).
            now c - SCAN_INTERVAL_SEC * 3 \<le> last_seen r \<or> i \<in> seen_ips hs)"
proof (intro conjI allI impI ballI)
  fix i r assume r: "map_of (devices st) i = Some r"
  show "map_of (devices (scan_once c st)) i = None \<longleftrightarrow>
          last_seen r < now c - SCAN_INTERVAL_SEC * 3 \<and> i \<notin> seen_ips hs"
  proof (cases "i \<in> seen_ips hs")
    case True
    with assms(2) lookup_scan_hosts_seen_Some [OF True, of "now c" "{}" st] show ?thesis
      by (auto simp add: lookup_scan_once_seen)
  next
    case False
    with assms r show ?thesis
      by (simp add: lookup_scan_once_unseen SCAN_INTERVAL_SEC_def)
  qed
next
  fix i assume i: "i \<in> seen_ips hs"
  with assms(2) lookup_scan_hosts_seen_Some [OF i, of "now c" "{}" st]
  show "map_of (devices (scan_once c st)) i \<noteq> None"
    by (auto simp add: lookup_scan_once_seen)
next
  fix x assume x: "x \<in> set (devices (scan_once c st))"
  obtain i r where [simp]: "x = (i, r)" by (cases x)
  from x assms(2) show "case x of (i, r) \<Rightarrow>
     now c - SCAN_INTERVAL_SEC * 3 \<le> last_seen r \<or> i \<in> seen_ips hs"
    by (fastforce simp add: scan_once_Some devices_finish_cycle mem_stale_ips
        SCAN_INTERVAL_SEC_def not_less [symmetric])
qed


theorem eviction_rule_witness:
  "(let st = \<lparr>devices = [(''10.0.0.1'', bare_device ''10.0.0.1'' 0),
                           (''10.0.0.2'', bare_device ''10.0.0.2'' 0),
                           (''10.0.0.3'', bare_device ''10.0.0.3'' 60)],
                device_count_history = [3], network_cidr = ''192.168.1.0/24''\<rparr>;
        hs = [up_host ''10.0.0.2'' []];
        c = cycle_at 100 hs
    in distinct (map fst (devices st)) \<and> sweep c = Some hs
       \<and> map_of (devices (scan_once c st)) ''10.0.0.1'' = None
       \<and> map_of (devices (scan_once c st)) ''10.0.0.2'' \<noteq> None
       \<and> map_of (devices (scan_once c st)) ''10.0.0.3'' \<noteq> None)"
proof -
  define st where "st = \<lparr>devices = [(''10.0.0.1'', bare_device ''10.0.0.1'' 0),
                           (''10.0.0.2'', bare_device ''10.0.0.2'' 0),
                           (''10.0.0.3'', bare_device ''10.0.0.3'' 60)],
                device_count_history = [3], network_cidr = ''192.168.1.0/24''\<rparr>"
  define hs where "hs = [up_host ''10.0.0.2'' []]"
  define c where "c = cycle_at 100 hs"
  have d: "distinct (map fst (devices st))" by (simp add: st_def)
  have s: "sweep c = Some hs" by (simp add: c_def cycle_at_def)
  have seen: "seen_ips hs = {''10.0.0.2''}"
    by (simp add: hs_def seen_ips_simps up_host_def)
  have l: "map_of (devices st) ''10.0.0.1'' = Some (bare_device ''10.0.0.1'' 0)"
    "map_of (devices st) ''10.0.0.3'' = Some (bare_device ''10.0.0.3'' 60)"
    by (simp_all add: st_def)
  have n: "now c = 100" by (simp add: c_def cycle_at_def)
  from eviction_rule [OF d s] l seen n
  have "map_of (devices (scan_once c st)) ''10.0.0.1'' = None"
    "map_of (devices (scan_once c st)) ''10.0.0.2'' \<noteq> None"
    "map_of (devices (scan_once c st)) ''10.0.0.3'' \<noteq> None"
    by (simp_all add: bare_device_def SCAN_INTERVAL_SEC_def)
  with d s show ?thesis
    by (simp add: st_def hs_def c_def Let_def)
qed




lemma distinct_finish_cycle:
  "distinct (map fst (devices st)) \<Longrightarrow> distinct (map fst (devices (finish_cycle cidr t seen st)))"
  by (simp add: devices_finish_cycle distinct_map_filter)

lemma distinct_scan_once:
  "distinct (map fst (devices st)) \<Longrightarrow> distinct (map fst (devices (scan_once c st)))"
  by (cases "sweep c")
     (simp_all add: scan_once_None scan_once_Some distinct_finish_cycle distinct_scan_hosts)

lemma distinct_run_cycles:
  "distinct (map fst (devices st)) \<Longrightarrow> distinct (map fst (devices (run_cycles st cs)))"
  by (induction cs arbitrary: st) (simp_all add: distinct_scan_once)

subsection \<open>The staleness window\<close>



lemma devices_finish_cycle_distinct:
  assumes "distinct (map fst (devices st))"
  shows "devices (finish_cycle cidr t seen st) =
           filter (\<lambda>(i, r). \<not> (last_seen r < t - 45 \<and> i \<notin> seen)) (devices st)"
  unfolding devices_finish_cycle
proof (rule filter_cong [OF refl])
  fix x assume x: "x \<in> set (devices st)"
  obtain i r where [simp]: "x = (i, r)" by (cases x)
  from x assms have "map_of (devices st) i = Some r" by simp
  then show "(case x of (k, v) \<Rightarrow> k \<notin> set (stale_ips (t - 45) seen (devices st))) =
             (case x of (i, r) \<Rightarrow> \<not> (last_seen r < t - 45 \<and> i \<notin> seen))"
    by (simp add: mem_stale_ips_distinct [OF assms])
qed

lemma scan_hosts_none_up:
  "seen_ips hs = {} \<Longrightarrow> scan_hosts t hs seen st = (seen, st)"
  by (induction hs) (simp_all add: seen_ips_simps split: if_splits)

lemma finish_cycle_eq:
  "finish_cycle cidr t seen st =
     \<lparr>devices = devices (finish_cycle cidr t seen st),
      device_count_history =
        (let h = device_count_history st @ [int (length (devices (finish_cycle cidr t seen st)))]
         in drop (length h - 200) h),
      network_cidr = cidr\<rparr>"
  by (simp add: finish_cycle_def Let_def)

subsection \<open>A cycle whose probe fails\<close>

text \<open>
  Claim C3, as the code has it. When the sweep raises, \<^verbatim>\<open>scan_once\<close> returns at line 82
  and leaves the whole state as it was: nothing is evicted and no sample is appended. When the
  sweep returns and no host is up, the device map loses exactly the devices whose
  \<open>last_seen\<close> is earlier than the cutoff, one sample equal to the resulting device count
  is appended (the history cut to its last 200), and the network range is overwritten.
\<close>

theorem failed_probe_cycle:
  assumes "distinct (map fst (devices st))"
  shows "(sweep c = None \<longrightarrow> scan_once c st = st)
       \<and> (\<forall>hs. sweep c = Some hs \<and> seen_ips hs = {} \<longrightarrow>
            (let ds = filter (\<lambda>(i, r). \<not> last_seen r < now c - SCAN_INTERVAL_SEC * 3)
                        (devices st);
                 h = device_count_history st @ [int (length ds)]
             in scan_once c st =
                  \<lparr>devices = ds, device_count_history = drop (length h - 200) h,
                   network_cidr = local_cidr c\<rparr>))"
proof (intro conjI allI impI)
  assume "sweep c = None"
  then show "scan_once c st = st" by (rule scan_once_None)
next
  fix hs assume h: "sweep c = Some hs \<and> seen_ips hs = {}"
  then have "scan_once c st = finish_cycle (local_cidr c) (now c) {} st"
    by (simp add: scan_once_Some scan_hosts_none_up)
  moreover have "devices (finish_cycle (local_cidr c) (now c) {} st) =
      filter (\<lambda>(i, r). \<not> last_seen r < now c - SCAN_INTERVAL_SEC * 3) (devices st)"
    by (simp add: devices_finish_cycle_distinct [OF assms] SCAN_INTERVAL_SEC_def)
  ultimately show "let ds = filter (\<lambda>(i, r). \<not> last_seen r < now c - SCAN_INTERVAL_SEC * 3)
                        (devices st);
                 h = device_count_history st @ [int (length ds)]
             in scan_once c st =
                  \<lparr>devices = ds, device_count_history = drop (length h - 200) h,
                   network_cidr = local_cidr c\<rparr>"
    using finish_cycle_eq [of "local_cidr c" "now c" "{}" st]
    by (simp add: Let_def)
qed

theorem failed_probe_cycle_witness:
  "(let st = \<lparr>devices = [(''10.0.0.1'', bare_device ''10.0.0.1'' 0),
                          (''10.0.0.3'', bare_device ''10.0.0.3'' 60)],
               device_count_history = [2], network_cidr = ''10.0.0.0/24''\<rparr>
    in distinct (map fst (devices st))
       \<and> scan_once (failed_cycle_at 100) st = st
       \<and> scan_once (cycle_at 100 []) st =
           \<lparr>devices = [(''10.0.0.3'', bare_device ''10.0.0.3'' 60)],
            device_count_history = [2, 1], network_cidr = ''192.168.1.0/24''\<rparr>)"
proof -
  define st where "st = \<lparr>devices = [(''10.0.0.1'', bare_device ''10.0.0.1'' 0),
                          (''10.0.0.3'', bare_device ''10.0.0.3'' 60)],
               device_count_history = [2], network_cidr = ''10.0.0.0/24''\<rparr>"
  have d: "distinct (map fst (devices st))" by (simp add: st_def)
  have a: "scan_once (failed_cycle_at 100) st = st"
    using failed_probe_cycle [OF d, of "failed_cycle_at 100"]
    by (simp add: failed_cycle_at_def)
  have "sweep (cycle_at 100 []) = Some [] \<and> seen_ips [] = {}"
    by (simp add: cycle_at_def seen_ips_simps)
  with failed_probe_cycle [OF d, of "cycle_at 100 []"]
  have b: "scan_once (cycle_at 100 []) st =
           \<lparr>devices = [(''10.0.0.3'', bare_device ''10.0.0.3'' 60)],
            device_count_history = [2, 1], network_cidr = ''192.168.1.0/24''\<rparr>"
    by (simp add: Let_def st_def cycle_at_def bare_device_def SCAN_INTERVAL_SEC_def)
  from d a b show ?thesis by (simp add: st_def Let_def)
qed

text \<open>
  Claim C3 as stated fails when the sweep raises: after a cycle at time 0 that saw one host and
  a cycle at time 100 whose sweep raised, the history still holds the one sample of the first
  cycle, and the device, stale by then, is still stored.
\<close>

theorem failed_probe_cycle_counterexample:
  "device_count_history (run_cycles initial
      [cycle_at 0 [up_host ''10.0.0.1'' []], failed_cycle_at 100]) = [1]
   \<and> map_of (devices (run_cycles initial
      [cycle_at 0 [up_host ''10.0.0.1'' []], failed_cycle_at 100])) ''10.0.0.1''
       = Some (bare_device ''10.0.0.1'' 0)"
  by (simp add: initial_def cycle_at_def failed_cycle_at_def up_host_def bare_device_def
      scan_once_def probe_and_merge_def merge_host_def merge_record_def finish_cycle_def
      stale_ips_def sorted_ports_def SCAN_INTERVAL_SEC_def Let_def)

subsection \<open>The history\<close>

lemma lastn_lastn_append: "lastn n (lastn n xs @ ys) = lastn n (xs @ ys)"
  by (cases "length xs \<le> n") (simp_all add: lastn_def add.commute)

lemma length_lastn: "length (lastn n xs) = min n (length xs)"
  by (simp add: lastn_def)

lemma length_samples: "length (samples st cs) = length cs"
  by (induction cs arbitrary: st) simp_all

lemma history_scan_once:
  assumes "sweep c = Some hs"
  shows "device_count_history (scan_once c st) =
           lastn 200 (device_count_history st @ [int (length (devices (scan_once c st)))])"
  using assms
  by (simp add: scan_once_Some history_finish_cycle Let_def lastn_def scan_hosts_others)

lemma history_run_cycles:
  "\<forall>x \<in> set (c # cs). sweep x \<noteq> None \<Longrightarrow>
   device_count_history (run_cycles st (c # cs)) =
     lastn 200 (device_count_history st @ samples st (c # cs))"
proof (induction cs arbitrary: c st)
  case Nil
  then obtain hs where "sweep c = Some hs" by auto
  then show ?case by (simp add: history_scan_once)
next
  case (Cons c' cs)
  then obtain hs where hs: "sweep c = Some hs" by auto
  from Cons.prems have "\<forall>x \<in> set (c' # cs). sweep x \<noteq> None" by simp
  then have "device_count_history (run_cycles (scan_once c st) (c' # cs)) =
      lastn 200 (device_count_history (scan_once c st) @ samples (scan_once c st) (c' # cs))"
    by (rule Cons.IH)
  also have "\<dots> = lastn 200 (device_count_history st @ samples st (c # c' # cs))"
    using lastn_lastn_append
            [of 200 "device_count_history st @ [int (length (devices (scan_once c st)))]"
                "samples (scan_once c st) (c' # cs)"]
    by (simp add: history_scan_once [OF hs])
  finally show ?case by simp
qed

text \<open>
  Claim C6. After every cycle that reaches the merge (its sweep returned) the history holds at
  most 200 samples, and it is the former history with exactly one sample appended, the device
  count after eviction, cut to its last 200. Over successive such cycles the history is the last
  200 of all samples; so after 201 cycles from an empty history it is the samples of cycles 2
  to 201 in order: the oldest is dropped, and the newest, the current device count, is last.
\<close>

theorem history_bounded:
  assumes "\<forall>c \<in> set (c # cs). sweep c \<noteq> None"
  shows "length (device_count_history (scan_once c st)) \<le> 200
       \<and> device_count_history (scan_once c st) =
           lastn 200 (device_count_history st @ [int (length (devices (scan_once c st)))])
       \<and> device_count_history (run_cycles st (c # cs)) =
           lastn 200 (device_count_history st @ samples st (c # cs))
       \<and> (device_count_history st = [] \<and> length (c # cs) = 201 \<longrightarrow>
            device_count_history (run_cycles st (c # cs)) = tl (samples st (c # cs))
            \<and> last (device_count_history (run_cycles st (c # cs)))
                = int (length (devices (run_cycles st (c # cs)))))"
proof -
  from assms obtain hs where hs: "sweep c = Some hs" by auto
  have one: "device_count_history (scan_once c st) =
           lastn 200 (device_count_history st @ [int (length (devices (scan_once c st)))])"
    by (rule history_scan_once [OF hs])
  then have le: "length (device_count_history (scan_once c st)) \<le> 200"
    by (simp add: length_lastn)
  have run: "device_count_history (run_cycles st (c # cs)) =
           lastn 200 (device_count_history st @ samples st (c # cs))"
    using assms by (rule history_run_cycles)
  have k: "device_count_history (run_cycles st (c # cs)) = tl (samples st (c # cs))
         \<and> last (device_count_history (run_cycles st (c # cs)))
                = int (length (devices (run_cycles st (c # cs))))"
    if e: "device_count_history st = []" and l: "length (c # cs) = 201"
  proof
    have "length (samples st (c # cs)) = 201" using l by (simp only: length_samples)
    then show "device_count_history (run_cycles st (c # cs)) = tl (samples st (c # cs))"
      using run e by (simp add: lastn_def drop_Suc)
    show "last (device_count_history (run_cycles st (c # cs)))
                = int (length (devices (run_cycles st (c # cs))))"
    proof -
      obtain cs' c' where snoc: "c # cs = cs' @ [c']"
        by (metis append_butlast_last_id list.distinct(1))
      with assms obtain hs' where hs': "sweep c' = Some hs'"
        by (metis in_set_conv_decomp not_Some_eq)
      have r: "run_cycles st (cs' @ [c']) = scan_once c' (run_cycles st cs')"
        for st by (induction cs' arbitrary: st) simp_all
      show ?thesis
        unfolding snoc r history_scan_once [OF hs'] by (simp add: lastn_def)
    qed
  qed
  from one le run k show ?thesis by blast
qed

theorem history_bounded_witness:
  "list_all (\<lambda>x. sweep x \<noteq> None)
      (cycle_at 0 [] # cycle_at 0 [up_host ''10.0.0.1'' []] # replicate 199 (cycle_at 0 []))
   \<and> device_count_history initial = []
   \<and> length (cycle_at 0 [] # cycle_at 0 [up_host ''10.0.0.1'' []]
                # replicate 199 (cycle_at 0 [])) = 201
   \<and> samples initial (cycle_at 0 [] # cycle_at 0 [up_host ''10.0.0.1'' []]
                # replicate 199 (cycle_at 0 [])) = 0 # replicate 200 1
   \<and> device_count_history (run_cycles initial
         (cycle_at 0 [] # cycle_at 0 [up_host ''10.0.0.1'' []] # replicate 199 (cycle_at 0 [])))
       = replicate 200 1"
proof -
  let ?c = "cycle_at 0 []"
  let ?cs = "cycle_at 0 [up_host ''10.0.0.1'' []] # replicate 199 (cycle_at 0 [])"
  have h: "\<forall>x \<in> set (?c # ?cs). sweep x \<noteq> None"
    by (simp add: cycle_at_def)
  have e: "device_count_history initial = []" by (simp add: initial_def)
  have l: "length (?c # ?cs) = 201" by simp
  have s: "samples initial (?c # ?cs) = 0 # replicate 200 1" by code_simp
  from history_bounded [OF h, of initial] e l
  have "device_count_history (run_cycles initial (?c # ?cs)) = tl (samples initial (?c # ?cs))"
    by blast
  with s have "device_count_history (run_cycles initial (?c # ?cs)) = replicate 200 1"
    by simp
  moreover from h have "list_all (\<lambda>x. sweep x \<noteq> None) (?c # ?cs)"
    by (simp only: list_all_iff)
  ultimately show ?thesis using e l s by blast
qed

subsection \<open>The link identity\<close>

lemma keeps_identity_refl: "keeps_identity r r"
  by (simp add: keeps_identity_def)

lemma keeps_identity_trans:
  "keeps_identity r r1 \<Longrightarrow> keeps_identity r1 r2 \<Longrightarrow> keeps_identity r r2"
  by (auto simp add: keeps_identity_def)

lemma keeps_identity_host_record: "keeps_identity r (host_record t h (Some r))"
  by (simp add: keeps_identity_def host_record_def merge_record_def Let_def)

lemma scan_hosts_keeps:
  "map_of (devices st) i = Some r \<Longrightarrow>
   \<exists>r'. map_of (devices (snd (scan_hosts t hs seen st))) i = Some r' \<and> keeps_identity r r'"
proof (induction hs arbitrary: seen st r)
  case Nil
  then show ?case by (simp add: keeps_identity_refl)
next
  case (Cons h hs)
  show ?case
  proof (cases "hstate h = Some ''up''")
    case False
    with Cons show ?thesis by simp
  next
    case True
    have "\<exists>r1. map_of (devices (probe_and_merge t h st)) i = Some r1 \<and> keeps_identity r r1"
      using Cons.prems
      by (cases "i = host h")
         (simp_all add: lookup_probe_and_merge keeps_identity_host_record keeps_identity_refl)
    then obtain r1 where r1: "map_of (devices (probe_and_merge t h st)) i = Some r1"
      and k1: "keeps_identity r r1"
      by blast
    from Cons.IH [OF r1] obtain r' where
      "map_of (devices (snd (scan_hosts t hs (insert (host h) seen) (probe_and_merge t h st)))) i
         = Some r'" and "keeps_identity r1 r'"
      by blast
    with True k1 show ?thesis
      by (auto intro: keeps_identity_trans)
  qed
qed

lemma scan_once_keeps:
  assumes "map_of (devices st) i = Some r" "map_of (devices (scan_once c st)) i = Some r'"
  shows "keeps_identity r r'"
proof (cases "sweep c")
  case None
  with assms show ?thesis by (simp add: scan_once_None keeps_identity_refl)
next
  case (Some hs)
  with assms(2) have "map_of (devices (snd (scan_hosts (now c) hs {} st))) i = Some r'"
    by (simp add: scan_once_Some lookup_finish_cycle split: if_splits)
  with scan_hosts_keeps [OF assms(1), of "now c" hs "{}"] show ?thesis by auto
qed

lemma run_cycles_keeps:
  "map_of (devices st) i = Some r \<Longrightarrow>
   \<forall>k \<le> length cs. map_of (devices (run_cycles st (take k cs))) i \<noteq> None \<Longrightarrow>
   \<exists>r'. map_of (devices (run_cycles st cs)) i = Some r' \<and> keeps_identity r r'"
proof (induction cs arbitrary: st r)
  case Nil
  then show ?case by (simp add: keeps_identity_refl)
next
  case (Cons c cs)
  from Cons.prems(2) have "map_of (devices (run_cycles st (take 1 (c # cs)))) i \<noteq> None"
    by (metis One_nat_def Suc_leI length_Cons zero_less_Suc)
  then obtain r1 where r1: "map_of (devices (scan_once c st)) i = Some r1" by auto
  have k1: "keeps_identity r r1" using Cons.prems(1) r1 by (rule scan_once_keeps)
  have "\<forall>k \<le> length cs. map_of (devices (run_cycles (scan_once c st) (take k cs))) i \<noteq> None"
  proof (intro allI impI)
    fix k assume "k \<le> length cs"
    then have "Suc k \<le> length (c # cs)" by simp
    with Cons.prems(2) have "map_of (devices (run_cycles st (take (Suc k) (c # cs)))) i \<noteq> None"
      by blast
    then show "map_of (devices (run_cycles (scan_once c st) (take k cs))) i \<noteq> None" by simp
  qed
  from Cons.IH [OF r1 this] obtain r' where
    "map_of (devices (run_cycles (scan_once c st) cs)) i = Some r'" "keeps_identity r1 r'"
    by blast
  with k1 show ?case by (auto intro: keeps_identity_trans)
qed

text \<open>
  Claim C4. Take a device stored with its record \<open>r\<close>. Any cycle that reports its address,
  whatever identity it reports (an empty one too), leaves the device stored with every true
  field of MAC and vendor as it was; and over any sequence of cycles during which the device
  stays in the registry, a MAC or vendor that was true at the start is the same at the end. So a
  field changes only when it was unset.
\<close>

theorem identity_sticky:
  assumes "map_of (devices st) i = Some r"
  shows "(\<forall>(c::cycle) hs. sweep c = Some hs \<and> i \<in> seen_ips hs \<longrightarrow>
            (\<exists>r'. map_of (devices (scan_once c st)) i = Some r' \<and> keeps_identity r r'))
       \<and> (\<forall>cs. (\<forall>k \<le> length cs. map_of (devices (run_cycles st (take k cs))) i \<noteq> None) \<longrightarrow>
            (\<exists>r'. map_of (devices (run_cycles st cs)) i = Some r' \<and> keeps_identity r r'))"
proof (intro conjI allI impI)
  fix c :: cycle and hs assume a: "sweep c = Some hs \<and> i \<in> seen_ips hs"
  then obtain r' where r': "map_of (devices (scan_once c st)) i = Some r'"
    using lookup_scan_hosts_seen_Some [of i hs "now c" "{}" st]
    by (auto simp add: lookup_scan_once_seen)
  with assms have "keeps_identity r r'" by (rule scan_once_keeps)
  with r' show "\<exists>r'. map_of (devices (scan_once c st)) i = Some r' \<and> keeps_identity r r'"
    by blast
next
  fix cs assume "\<forall>k \<le> length cs. map_of (devices (run_cycles st (take k cs))) i \<noteq> None"
  with assms show "\<exists>r'. map_of (devices (run_cycles st cs)) i = Some r' \<and> keeps_identity r r'"
    by (rule run_cycles_keeps)
qed


theorem identity_sticky_witness:
  "(let r = \<lparr>ip = ''10.0.0.1'', mac = Some ''aa:bb:cc:dd:ee:ff'', vendor = Some ''Acme'',
              open_ports = [], vulns = [], last_seen = 0\<rparr>;
        st = \<lparr>devices = [(''10.0.0.1'', r)], device_count_history = [1],
               network_cidr = ''192.168.1.0/24''\<rparr>;
        c = cycle_at 15 [up_host ''10.0.0.1'' []];
        cs = [c, cycle_at 30 [up_host ''10.0.0.1'' []]]
    in map_of (devices st) ''10.0.0.1'' = Some r
       \<and> sweep c = Some [up_host ''10.0.0.1'' []]
       \<and> ''10.0.0.1'' \<in> seen_ips [up_host ''10.0.0.1'' []]
       \<and> (\<exists>r'. map_of (devices (scan_once c st)) ''10.0.0.1'' = Some r'
                 \<and> mac r' = Some ''aa:bb:cc:dd:ee:ff'' \<and> vendor r' = Some ''Acme'')
       \<and> map_of (devices (run_cycles st (take 0 cs))) ''10.0.0.1'' \<noteq> None
       \<and> map_of (devices (run_cycles st (take 1 cs))) ''10.0.0.1'' \<noteq> None
       \<and> map_of (devices (run_cycles st (take 2 cs))) ''10.0.0.1'' \<noteq> None
       \<and> (\<exists>r'. map_of (devices (run_cycles st cs)) ''10.0.0.1'' = Some r'
                 \<and> mac r' = Some ''aa:bb:cc:dd:ee:ff'' \<and> vendor r' = Some ''Acme''))"
proof -
  define r where "r = \<lparr>ip = ''10.0.0.1'', mac = Some ''aa:bb:cc:dd:ee:ff'',
              vendor = Some ''Acme'', open_ports = [], vulns = [], last_seen = 0\<rparr>"
  define st where "st = \<lparr>devices = [(''10.0.0.1'', r)], device_count_history = [1],
               network_cidr = ''192.168.1.0/24''\<rparr>"
  define c where "c = cycle_at 15 [up_host ''10.0.0.1'' []]"
  define cs where "cs = [c, cycle_at 30 [up_host ''10.0.0.1'' []]]"
  note defs = st_def c_def cs_def cycle_at_def up_host_def scan_once_def
      probe_and_merge_def merge_host_def merge_record_def finish_cycle_def stale_ips_def
      sorted_ports_def SCAN_INTERVAL_SEC_def Let_def
  have l: "map_of (devices st) ''10.0.0.1'' = Some r" by (simp add: st_def)
  have s: "sweep c = Some [up_host ''10.0.0.1'' []]" by (simp add: c_def cycle_at_def)
  have m: "''10.0.0.1'' \<in> seen_ips [up_host ''10.0.0.1'' []]"
    by (simp add: seen_ips_simps up_host_def)
  have p': "map_of (devices (run_cycles st (take 0 cs))) ''10.0.0.1'' \<noteq> None"
    "map_of (devices (run_cycles st (take 1 cs))) ''10.0.0.1'' \<noteq> None"
    "map_of (devices (run_cycles st (take 2 cs))) ''10.0.0.1'' \<noteq> None"
    by (simp_all add: defs)
  have p: "\<forall>k \<le> length cs. map_of (devices (run_cycles st (take k cs))) ''10.0.0.1'' \<noteq> None"
  proof (intro allI impI)
    fix k assume "k \<le> length cs"
    then have "k = 0 \<or> k = 1 \<or> k = 2" by (auto simp add: cs_def)
    with p' show "map_of (devices (run_cycles st (take k cs))) ''10.0.0.1'' \<noteq> None"
      by blast
  qed
  have t: "truthy (mac r)" "truthy (vendor r)" by (simp_all add: r_def)
  from identity_sticky [OF l] s m
  have a: "\<exists>r'. map_of (devices (scan_once c st)) ''10.0.0.1'' = Some r' \<and> keeps_identity r r'"
    by blast
  from identity_sticky [OF l] p
  have b: "\<exists>r'. map_of (devices (run_cycles st cs)) ''10.0.0.1'' = Some r' \<and> keeps_identity r r'"
    by blast
  have k: "keeps_identity r r' \<Longrightarrow> mac r' = Some ''aa:bb:cc:dd:ee:ff'' \<and> vendor r' = Some ''Acme''"
    for r' using t by (simp add: keeps_identity_def r_def)
  from a b k l s m p' show ?thesis
    unfolding Let_def r_def [symmetric] st_def [symmetric] c_def [symmetric] cs_def [symmetric]
    by blast
qed

subsection \<open>Open ports and findings\<close>

lemma set_sorted_ports: "set (sorted_ports es) = set (collect_open es)"
  by (simp add: sorted_ports_def)

lemma sorted_distinct_sorted_ports:
  "sorted (sorted_ports es)" "distinct (sorted_ports es)"
  by (simp_all add: sorted_ports_def)

lemma host_record_fields:
  "open_ports (host_record t h old) = sorted_ports (port_scan h)"
  "vulns (host_record t h old) = vulns_of (sorted_ports (port_scan h))"
  "last_seen (host_record t h old) = t"
  by (simp_all add: host_record_def merge_record_def Let_def)

lemma set_vulns_of:
  "set (vulns_of ps) = {finding sm |q sm. q \<in> set ps \<and> classify q = Some sm}"
proof (induction ps)
  case Nil
  then show ?case by simp
next
  case (Cons p ps)
  then show ?case
    by (auto simp add: in_VULN_HINTS_classify split: option.splits)
qed

lemma map_of_inj_distinct:
  "distinct (map (\<lambda>x. f (snd x)) xs) \<Longrightarrow> map_of xs p = Some a \<Longrightarrow> map_of xs q = Some b \<Longrightarrow>
   f a = f b \<Longrightarrow> p = q"
proof (induction xs)
  case Nil
  then show ?case by simp
next
  case (Cons x xs)
  obtain k v where [simp]: "x = (k, v)" by (cases x)
  from Cons.prems(1) have nin: "f v \<notin> (\<lambda>x. f (snd x)) ` set xs" and d: "distinct (map (\<lambda>x. f (snd x)) xs)"
    by simp_all
  have mem: "map_of xs z = Some c \<Longrightarrow> f c \<in> (\<lambda>x. f (snd x)) ` set xs" for z c
    by (force dest: map_of_SomeD)
  show ?case
  proof (cases "p = k")
    case True
    show ?thesis
    proof (cases "q = k")
      case True
      with \<open>p = k\<close> show ?thesis by simp
    next
      case False
      with True Cons.prems nin mem [of q b] show ?thesis by auto
    qed
  next
    case False
    show ?thesis
    proof (cases "q = k")
      case True
      with False Cons.prems nin mem [of p a] show ?thesis by auto
    next
      case qk: False
      with False Cons.prems d Cons.IH show ?thesis by simp
    qed
  qed
qed

lemma distinct_findings: "distinct (map (\<lambda>x. finding (snd x)) VULN_HINTS)"
  by (simp add: VULN_HINTS_def finding_def)

lemma finding_classify_inj:
  assumes "classify p = Some sm" "classify q = Some sm'" "finding sm = finding sm'"
  shows "p = q"
  using map_of_inj_distinct [OF distinct_findings, of p sm q sm'] assms
  by (simp add: classify_def)

lemma finding_not_in_vulns_of:
  assumes "p \<notin> set ps" "classify p = Some sm"
  shows "finding sm \<notin> set (vulns_of ps)"
proof
  assume "finding sm \<in> set (vulns_of ps)"
  then obtain q sm' where q: "q \<in> set ps" "classify q = Some sm'" "finding sm = finding sm'"
    unfolding set_vulns_of by blast
  from assms(2) q(2,3) have "p = q" by (rule finding_classify_inj)
  with q(1) assms(1) show False by simp
qed

lemma lookup_scan_once_host:
  assumes "sweep c = Some hs" "distinct (map host hs)" "h \<in> set hs" "hstate h = Some ''up''"
  shows "map_of (devices (scan_once c st)) (host h) =
           Some (host_record (now c) h (map_of (devices st) (host h)))"
proof -
  from assms(3,4) have "host h \<in> seen_ips hs" by (auto simp add: seen_ips_def)
  with assms show ?thesis
    by (simp add: lookup_scan_once_seen lookup_scan_hosts_seen)
qed

text \<open>
  Claim C5. For a host that is up in the sweep of a cycle, the record stored after the cycle
  has as open ports the sorted distinct ports that this cycle's scan found open, whatever the
  record held before, and as findings those of this port list alone. Hence a port that this
  cycle did not find open is neither among the open ports nor has its finding in the list,
  also when an earlier cycle had found it open.
\<close>

theorem ports_replaced:
  assumes "sweep c = Some hs" and "distinct (map host hs)"
    and "h \<in> set hs" and "hstate h = Some ''up''"
  shows "\<exists>r. map_of (devices (scan_once c st)) (host h) = Some r
           \<and> open_ports r = sort (remdups (collect_open (port_scan h)))
           \<and> vulns r = vulns_of (open_ports r)
           \<and> (\<forall>p. p \<notin> set (collect_open (port_scan h)) \<longrightarrow>
                 p \<notin> set (open_ports r)
                 \<and> (\<forall>sm. classify p = Some sm \<longrightarrow> finding sm \<notin> set (vulns r)))"
proof -
  let ?r = "host_record (now c) h (map_of (devices st) (host h))"
  have "map_of (devices (scan_once c st)) (host h) = Some ?r"
    using assms by (rule lookup_scan_once_host)
  moreover have "open_ports ?r = sort (remdups (collect_open (port_scan h)))"
    by (simp add: host_record_fields sorted_ports_def)
  moreover have "vulns ?r = vulns_of (open_ports ?r)"
    by (simp add: host_record_fields)
  moreover have "\<forall>p. p \<notin> set (collect_open (port_scan h)) \<longrightarrow>
                 p \<notin> set (open_ports ?r)
                 \<and> (\<forall>sm. classify p = Some sm \<longrightarrow> finding sm \<notin> set (vulns ?r))"
    by (simp add: host_record_fields set_sorted_ports finding_not_in_vulns_of)
  ultimately show ?thesis by blast
qed


theorem ports_replaced_witness:
  "(let h1 = up_host ''10.0.0.7'' [PortEntry 21 ''open'', PortEntry 80 ''open''];
        h2 = up_host ''10.0.0.7'' [PortEntry 21 ''closed'', PortEntry 80 ''open''];
        st1 = scan_once (cycle_at 0 [h1]) initial;
        c2 = cycle_at 15 [h2]
    in sweep c2 = Some [h2] \<and> distinct (map host [h2]) \<and> h2 \<in> set [h2]
       \<and> hstate h2 = Some ''up''
       \<and> map_option open_ports (map_of (devices st1) ''10.0.0.7'') = Some [21, 80]
       \<and> 21 \<notin> set (collect_open (port_scan h2))
       \<and> (\<exists>r. map_of (devices (scan_once c2 st1)) ''10.0.0.7'' = Some r
              \<and> open_ports r = [80]
              \<and> vulns r = [''[MEDIUM] HTTP (80) '' @ em_dash @ '' no TLS; prefer HTTPS.'']))"
proof -
  define h1 where "h1 = up_host ''10.0.0.7'' [PortEntry 21 ''open'', PortEntry 80 ''open'']"
  define h2 where "h2 = up_host ''10.0.0.7'' [PortEntry 21 ''closed'', PortEntry 80 ''open'']"
  define st1 where "st1 = scan_once (cycle_at 0 [h1]) initial"
  define c2 where "c2 = cycle_at 15 [h2]"
  have a: "sweep c2 = Some [h2]" by (simp add: c2_def cycle_at_def)
  have b: "distinct (map host [h2])" by simp
  have c: "h2 \<in> set [h2]" by simp
  have d: "hstate h2 = Some ''up''" by (simp add: h2_def up_host_def)
  have e: "host h2 = ''10.0.0.7''" by (simp add: h2_def up_host_def)
  have f: "collect_open (port_scan h2) = [80]" by (simp add: h2_def up_host_def)
  have v: "vulns_of [80] = [''[MEDIUM] HTTP (80) '' @ em_dash @ '' no TLS; prefer HTTPS.'']"
    by (simp add: in_VULN_HINTS_iff classify_def VULN_HINTS_def finding_def)
  have g: "map_option open_ports (map_of (devices st1) ''10.0.0.7'') = Some [21, 80]"
    by (simp add: st1_def h1_def initial_def cycle_at_def up_host_def scan_once_def
        probe_and_merge_def merge_host_def merge_record_def finish_cycle_def stale_ips_def
        sorted_ports_def SCAN_INTERVAL_SEC_def Let_def)
  from ports_replaced [OF a b c d, of st1] e f v
  have "\<exists>r. map_of (devices (scan_once c2 st1)) ''10.0.0.7'' = Some r
              \<and> open_ports r = [80]
              \<and> vulns r = [''[MEDIUM] HTTP (80) '' @ em_dash @ '' no TLS; prefer HTTPS.'']"
    by auto
  with a b c d f g show ?thesis
    unfolding Let_def h1_def [symmetric] h2_def [symmetric] st1_def [symmetric]
      c2_def [symmetric]
    by simp
qed

subsection \<open>The summary\<close>

lemma tally_get_update:
  "tally_get (AList.update q n pt) p = (if p = q then n else tally_get pt p)"
  by (simp add: tally_get_def update_conv')

lemma tally_ports_lookup:
  "map_of (tally_ports ps pt) p =
     (if in_VULN_HINTS p \<and> p \<in> set ps
      then Some (tally_get pt p + int (count_list ps p))
      else map_of pt p)"
proof (induction ps arbitrary: pt)
  case Nil
  then show ?case by simp
next
  case (Cons q ps)
  show ?case
  proof (cases "in_VULN_HINTS q")
    case False
    with Cons show ?thesis by auto
  next
    case True
    show ?thesis
    proof (cases "p = q")
      case False
      with True Cons show ?thesis by (simp add: tally_get_update update_conv')
    next
      case pq: True
      with True Cons show ?thesis
        by (simp add: tally_get_update update_conv' count_list_0_iff)
    qed
  qed
qed

lemma tally_get_tally_ports:
  "tally_get (tally_ports ps pt) p =
     (if in_VULN_HINTS p then tally_get pt p + int (count_list ps p) else tally_get pt p)"
  using tally_ports_lookup [of ps pt p]
  by (auto simp add: tally_get_def count_list_0_iff)

lemma summary_loop_vulnerable:
  "fst (summary_loop ds (v, pt, rows)) = v + int (length (filter (\<lambda>(i, r). vulns r \<noteq> []) ds))"
  by (induction ds arbitrary: v pt rows) (auto simp add: Let_def)

lemma summary_loop_rows:
  "snd (snd (summary_loop ds (v, pt, rows))) = rows @ map (\<lambda>(i, r). device_row i r) ds"
  by (induction ds arbitrary: v pt rows) (auto simp add: Let_def)

lemma open_count_simps:
  "open_count [] p = 0"
  "open_count ((i, r) # ds) p = int (count_list (open_ports r) p) + open_count ds p"
  by (simp_all add: open_count_def)

lemma open_count_zero:
  "\<forall>(i, r) \<in> set ds. p \<notin> set (open_ports r) \<Longrightarrow> open_count ds p = 0"
  by (induction ds) (auto simp add: open_count_simps count_list_0_iff)

lemma summary_loop_tally:
  "map_of (fst (snd (summary_loop ds (v, pt, rows)))) p =
     (if in_VULN_HINTS p \<and> (\<exists>(i, r) \<in> set ds. p \<in> set (open_ports r))
      then Some (tally_get pt p + open_count ds p)
      else map_of pt p)"
proof (induction ds arbitrary: v pt rows)
  case Nil
  then show ?case by simp
next
  case (Cons x ds)
  obtain i r where [simp]: "x = (i, r)" by (cases x)
  let ?pt = "tally_ports (open_ports r) pt"
  have step: "map_of (fst (snd (summary_loop (x # ds) (v, pt, rows)))) p =
     (if in_VULN_HINTS p \<and> (\<exists>(i, r) \<in> set ds. p \<in> set (open_ports r))
      then Some (tally_get ?pt p + open_count ds p)
      else map_of ?pt p)"
    by (simp add: Let_def Cons.IH)
  show ?case
  proof (cases "in_VULN_HINTS p")
    case False
    with step show ?thesis by (simp add: tally_ports_lookup)
  next
    case True
    show ?thesis
    proof (cases "\<exists>(i, r) \<in> set ds. p \<in> set (open_ports r)")
      case ex: True
      with True step show ?thesis
        by (simp add: tally_get_tally_ports open_count_simps)
    next
      case nex: False
      then have "open_count ds p = 0" by (intro open_count_zero) auto
      with True nex step show ?thesis
        by (simp add: tally_ports_lookup open_count_simps)
    qed
  qed
qed

lemma count_list_distinct:
  "distinct xs \<Longrightarrow> count_list xs p = (if p \<in> set xs then 1 else 0)"
  by (induction xs) auto

lemma open_count_distinct:
  "\<forall>(i, r) \<in> set ds. distinct (open_ports r) \<Longrightarrow>
   open_count ds p = int (length (filter (\<lambda>(i, r). p \<in> set (open_ports r)) ds))"
proof (induction ds)
  case Nil
  then show ?case by (simp add: open_count_simps)
next
  case (Cons x ds)
  obtain i r where [simp]: "x = (i, r)" by (cases x)
  from Cons.prems have "distinct (open_ports r)" by simp
  then have "count_list (open_ports r) p = (if p \<in> set (open_ports r) then 1 else 0)"
    by (rule count_list_distinct)
  with Cons show ?case by (simp add: open_count_simps)
qed


lemma api_summary_fst:
  "fst (api_summary st) =
     \<lparr>s_network = network_cidr st,
      s_total = int (length (devices st)),
      s_safe = int (length (devices st)) - fst (summary_loop (devices st) (0, [], [])),
      s_vulnerable = fst (summary_loop (devices st) (0, [], [])),
      s_history = lastn 60 (device_count_history st),
      s_vuln_ports = fst (snd (summary_loop (devices st) (0, [], []))),
      s_devices = snd (snd (summary_loop (devices st) (0, [], [])))\<rparr>"
  by (simp add: api_summary_def Let_def lastn_def split: prod.splits)

lemma api_summary_snd: "snd (api_summary st) = st"
  by (simp add: api_summary_def Let_def split: prod.splits)

lemma set_update_subset: "set (AList.update k v al) \<subseteq> insert (k, v) (set al)"
  by (induction al) auto

lemma ports_distinct_probe_and_merge:
  assumes "ports_distinct st"
  shows "ports_distinct (probe_and_merge t h st)"
proof -
  have "distinct (open_ports (host_record t h (map_of (devices st) (host h))))"
    by (simp add: host_record_fields sorted_distinct_sorted_ports)
  with assms set_update_subset show ?thesis
    unfolding probe_and_merge_eq ports_distinct_def by fastforce
qed

lemma ports_distinct_scan_hosts:
  "ports_distinct st \<Longrightarrow> ports_distinct (snd (scan_hosts t hs seen st))"
  by (induction hs arbitrary: seen st) (simp_all add: ports_distinct_probe_and_merge)

lemma ports_distinct_scan_once:
  assumes "ports_distinct st"
  shows "ports_distinct (scan_once c st)"
proof (cases "sweep c")
  case None
  with assms show ?thesis by (simp add: scan_once_None)
next
  case (Some hs)
  with ports_distinct_scan_hosts [OF assms, of "now c" hs "{}"] show ?thesis
    by (auto simp add: scan_once_Some devices_finish_cycle ports_distinct_def)
qed

lemma ports_distinct_run_cycles:
  "ports_distinct st \<Longrightarrow> ports_distinct (run_cycles st cs)"
  by (induction cs arbitrary: st) (simp_all add: ports_distinct_scan_once)

lemma ports_distinct_initial: "ports_distinct initial"
  by (simp add: ports_distinct_def initial_def)

text \<open>
  Claim C8. The summary of a state whose port lists have no repetitions leaves the state as it
  is; its total is the number of devices; it counts as vulnerable exactly the devices whose
  findings are not empty; safe is total minus vulnerable; the tally gives a port of the table
  the number of devices that have it open, and has no entry for a port outside the table or
  open on no device; and the history returned is the last 60 samples, hence at most 60.
\<close>

theorem summary_counts:
  assumes "ports_distinct st"
  shows "(let s = fst (api_summary st) in
            snd (api_summary st) = st
          \<and> s_total s = int (length (devices st))
          \<and> s_vulnerable s = int (length (filter (\<lambda>(i, r). vulns r \<noteq> []) (devices st)))
          \<and> s_safe s = s_total s - s_vulnerable s
          \<and> (\<forall>p. map_of (s_vuln_ports s) p =
                 (let n = int (length (filter (\<lambda>(i, r). p \<in> set (open_ports r)) (devices st)))
                  in if in_VULN_HINTS p \<and> 0 < n then Some n else None))
          \<and> s_history s = lastn 60 (device_count_history st)
          \<and> length (s_history s) \<le> 60)"
proof -
  have t: "map_of (s_vuln_ports (fst (api_summary st))) p =
      (let n = int (length (filter (\<lambda>(i, r). p \<in> set (open_ports r)) (devices st)))
       in if in_VULN_HINTS p \<and> 0 < n then Some n else None)" for p
  proof -
    have "(0 < length (filter (\<lambda>(i, r). p \<in> set (open_ports r)) (devices st))) =
          (\<exists>(i, r) \<in> set (devices st). p \<in> set (open_ports r))"
      by (auto simp add: filter_empty_conv)
    then show ?thesis
      by (simp add: api_summary_fst summary_loop_tally open_count_distinct [OF assms [unfolded ports_distinct_def]]
          tally_get_def Let_def)
  qed
  show ?thesis
    unfolding Let_def
    by (intro conjI allI t [unfolded Let_def])
       (simp_all add: api_summary_fst api_summary_snd summary_loop_vulnerable length_lastn)
qed


theorem summary_counts_witness:
  "(let st = scan_once (cycle_at 0
                [up_host ''10.0.0.1'' [PortEntry 21 ''open'', PortEntry 80 ''open''],
                 up_host ''10.0.0.2'' [PortEntry 9999 ''open'', PortEntry 80 ''open''],
                 up_host ''10.0.0.3'' [PortEntry 22 ''filtered'']]) initial;
        s = fst (api_summary st)
    in ports_distinct st
       \<and> snd (api_summary st) = st
       \<and> s_total s = 3 \<and> s_vulnerable s = 2 \<and> s_safe s = 1
       \<and> map_of (s_vuln_ports s) 21 = Some 1
       \<and> map_of (s_vuln_ports s) 80 = Some 2
       \<and> map_of (s_vuln_ports s) 22 = None
       \<and> map_of (s_vuln_ports s) 9999 = None
       \<and> s_history s = [3])"
proof -
  define st where "st = scan_once (cycle_at 0
                [up_host ''10.0.0.1'' [PortEntry 21 ''open'', PortEntry 80 ''open''],
                 up_host ''10.0.0.2'' [PortEntry 9999 ''open'', PortEntry 80 ''open''],
                 up_host ''10.0.0.3'' [PortEntry 22 ''filtered'']]) initial"
  define s where "s = fst (api_summary st)"
  have pd: "ports_distinct st"
    unfolding st_def by (intro ports_distinct_scan_once ports_distinct_initial)
  note ev = st_def initial_def cycle_at_def up_host_def scan_once_def
    probe_and_merge_def merge_host_def merge_record_def finish_cycle_def stale_ips_def
    sorted_ports_def SCAN_INTERVAL_SEC_def Let_def in_VULN_HINTS_iff classify_def
    VULN_HINTS_def
  have n: "length (devices st) = 3"
    "length (filter (\<lambda>(i, r). vulns r \<noteq> []) (devices st)) = 2"
    "length (filter (\<lambda>(i, r). 21 \<in> set (open_ports r)) (devices st)) = 1"
    "length (filter (\<lambda>(i, r). 80 \<in> set (open_ports r)) (devices st)) = 2"
    "length (filter (\<lambda>(i, r). 22 \<in> set (open_ports r)) (devices st)) = 0"
    "device_count_history st = [3]"
    by (simp_all add: ev)
  note sc = summary_counts [OF pd, unfolded Let_def, folded s_def]
  have t: "map_of (s_vuln_ports s) p =
             (if in_VULN_HINTS p
                 \<and> 0 < int (length (filter (\<lambda>(i, r). p \<in> set (open_ports r)) (devices st)))
              then Some (int (length (filter (\<lambda>(i, r). p \<in> set (open_ports r)) (devices st))))
              else None)" for p
    using sc by blast
  have "snd (api_summary st) = st" using sc by blast
  moreover have "s_total s = 3" using sc n(1) by simp
  moreover have "s_vulnerable s = 2" using sc n(2) by simp
  moreover have "s_safe s = 1" using sc n(1,2) by simp
  moreover have "map_of (s_vuln_ports s) 21 = Some 1"
    unfolding t by (simp add: n(3) in_VULN_HINTS_iff)
  moreover have "map_of (s_vuln_ports s) 80 = Some 2"
    unfolding t by (simp add: n(4) in_VULN_HINTS_iff)
  moreover have "map_of (s_vuln_ports s) 22 = None"
    unfolding t by (simp add: n(5))
  moreover have "map_of (s_vuln_ports s) 9999 = None"
    unfolding t by (simp add: in_VULN_HINTS_iff)
  moreover have "s_history s = [3]" using sc n(6) by (simp add: lastn_def)
  ultimately show ?thesis
    using pd unfolding Let_def st_def [symmetric] s_def [symmetric] by simp
qed

subsection \<open>A port scan that raises\<close>

lemma sorted_ports_Raises: "sorted_ports (Raises # es) = []"
  by (simp add: sorted_ports_def)

lemma probe_and_merge_cong:
  assumes "host h' = host h" "ident h' = ident h"
    "sorted_ports (port_scan h') = sorted_ports (port_scan h)"
  shows "probe_and_merge t h' st = probe_and_merge t h st"
  using assms by (simp add: probe_and_merge_def)

lemma scan_hosts_map_cong:
  assumes "\<forall>x \<in> set hs. host (f x) = host x \<and> hstate (f x) = hstate x \<and> ident (f x) = ident x
             \<and> sorted_ports (port_scan (f x)) = sorted_ports (port_scan x)"
  shows "scan_hosts t (map f hs) seen st = scan_hosts t hs seen st"
  using assms
proof (induction hs arbitrary: seen st)
  case Nil
  then show ?case by simp
next
  case (Cons x hs)
  then have "probe_and_merge t (f x) st = probe_and_merge t x st"
    by (intro probe_and_merge_cong) simp_all
  with Cons show ?case by simp
qed

lemma scan_once_map_cong:
  assumes "sweep c = Some hs"
    and "\<forall>x \<in> set hs. host (f x) = host x \<and> hstate (f x) = hstate x \<and> ident (f x) = ident x
             \<and> sorted_ports (port_scan (f x)) = sorted_ports (port_scan x)"
  shows "scan_once (c\<lparr>sweep := Some (map f hs)\<rparr>) st = scan_once c st"
  using assms(1) scan_hosts_map_cong [OF assms(2)]
  by (simp add: scan_once_def)

lemma s_devices_api_summary:
  "s_devices (fst (api_summary st)) = map (\<lambda>(i, r). device_row i r) (devices st)"
  by (simp add: api_summary_fst summary_loop_rows)

lemma s_safe_api_summary:
  "s_safe (fst (api_summary st)) = int (length (filter (\<lambda>(i, r). vulns r = []) (devices st)))"
proof -
  have "length (devices st) =
          length (filter (\<lambda>(i, r). vulns r \<noteq> []) (devices st))
          + length (filter (\<lambda>(i, r). vulns r = []) (devices st))"
    using sum_length_filter_compl [of "\<lambda>(i, r). vulns r \<noteq> []" "devices st"]
    by (simp add: case_prod_unfold)
  then show ?thesis
    by (simp add: api_summary_fst summary_loop_vulnerable)
qed

text \<open>
  Claim C10. When a host answers the sweep and its port scan raises at once, the cycle still
  stores a record for the host, with \<open>last_seen\<close> the time of the cycle and with no open
  port and no finding. The summary has its row, with empty port and finding lists, and counts
  it among the safe devices (safe is the number of devices without findings). The state is the
  same as if the scan of that host had returned no port at all.
\<close>

theorem port_scan_raises:
  assumes "sweep c = Some hs" and "distinct (map host hs)"
    and "h \<in> set hs" and "hstate h = Some ''up''" and "port_scan h = Raises # es"
  shows "\<exists>r. map_of (devices (scan_once c st)) (host h) = Some r
           \<and> last_seen r = now c \<and> open_ports r = [] \<and> vulns r = []
           \<and> (host h, r) \<in> set (filter (\<lambda>(i, r). vulns r = []) (devices (scan_once c st)))
           \<and> s_safe (fst (api_summary (scan_once c st)))
               = int (length (filter (\<lambda>(i, r). vulns r = []) (devices (scan_once c st))))
           \<and> device_row (host h) r \<in> set (s_devices (fst (api_summary (scan_once c st))))
           \<and> row_open_ports (device_row (host h) r) = []
           \<and> row_vulns (device_row (host h) r) = []
           \<and> scan_once (c\<lparr>sweep := Some (map (\<lambda>x. if x = h then x\<lparr>port_scan := []\<rparr> else x) hs)\<rparr>)
                st = scan_once c st"
proof -
  let ?r = "host_record (now c) h (map_of (devices st) (host h))"
  let ?st = "scan_once c st"
  have l: "map_of (devices ?st) (host h) = Some ?r"
    using assms(1-4) by (rule lookup_scan_once_host)
  have f: "last_seen ?r = now c" "open_ports ?r = []" "vulns ?r = []"
    by (simp_all add: host_record_fields assms(5) sorted_ports_Raises)
  from l have m: "(host h, ?r) \<in> set (devices ?st)" by (rule map_of_SomeD)
  with f have m': "(host h, ?r) \<in> set (filter (\<lambda>(i, r). vulns r = []) (devices ?st))"
    by simp
  from m have row: "device_row (host h) ?r \<in> set (s_devices (fst (api_summary ?st)))"
    unfolding s_devices_api_summary by force
  have rf: "row_open_ports (device_row (host h) ?r) = []" "row_vulns (device_row (host h) ?r) = []"
    by (simp_all add: device_row_def f)
  have same: "scan_once (c\<lparr>sweep := Some (map (\<lambda>x. if x = h then x\<lparr>port_scan := []\<rparr> else x) hs)\<rparr>)
                st = scan_once c st"
    using assms(1)
  proof (rule scan_once_map_cong)
    show "\<forall>x \<in> set hs.
       host (if x = h then x\<lparr>port_scan := []\<rparr> else x) = host x \<and>
       hstate (if x = h then x\<lparr>port_scan := []\<rparr> else x) = hstate x \<and>
       ident (if x = h then x\<lparr>port_scan := []\<rparr> else x) = ident x \<and>
       sorted_ports (port_scan (if x = h then x\<lparr>port_scan := []\<rparr> else x))
         = sorted_ports (port_scan x)"
      by (simp add: assms(5) sorted_ports_Raises sorted_ports_def)
  qed
  from l f m' row rf same s_safe_api_summary [of ?st] show ?thesis by blast
qed


theorem port_scan_raises_witness:
  "(let h = up_host ''10.0.0.9'' [Raises];
        c = cycle_at 30 [h];
        st = scan_once c initial
    in sweep c = Some [h] \<and> distinct (map host [h]) \<and> h \<in> set [h]
       \<and> hstate h = Some ''up'' \<and> port_scan h = Raises # []
       \<and> (\<exists>r. map_of (devices st) ''10.0.0.9'' = Some r
              \<and> last_seen r = 30 \<and> open_ports r = [] \<and> vulns r = []
              \<and> device_row ''10.0.0.9'' r \<in> set (s_devices (fst (api_summary st))))
       \<and> s_safe (fst (api_summary st)) = 1)"
proof -
  define h where "h = up_host ''10.0.0.9'' [Raises]"
  define c where "c = cycle_at 30 [h]"
  define st where "st = scan_once c initial"
  have a: "sweep c = Some [h]" by (simp add: c_def cycle_at_def)
  have b: "distinct (map host [h])" by simp
  have m: "h \<in> set [h]" by simp
  have d: "hstate h = Some ''up''" by (simp add: h_def up_host_def)
  have e: "port_scan h = Raises # []" by (simp add: h_def up_host_def)
  have hh: "host h = ''10.0.0.9''" by (simp add: h_def up_host_def)
  have n: "now c = 30" by (simp add: c_def cycle_at_def)
  have ds: "devices st = [(''10.0.0.9'', bare_device ''10.0.0.9'' 30)]"
    by (simp add: st_def c_def h_def initial_def cycle_at_def up_host_def bare_device_def
        scan_once_def probe_and_merge_def merge_host_def merge_record_def finish_cycle_def
        stale_ips_def sorted_ports_def SCAN_INTERVAL_SEC_def Let_def)
  from port_scan_raises [OF a b m d e, of initial]
  obtain r where r: "map_of (devices st) ''10.0.0.9'' = Some r"
      "last_seen r = 30" "open_ports r = []" "vulns r = []"
      "device_row ''10.0.0.9'' r \<in> set (s_devices (fst (api_summary st)))"
    and s: "s_safe (fst (api_summary st))
              = int (length (filter (\<lambda>(i, r). vulns r = []) (devices st)))"
    unfolding st_def [symmetric] hh n by blast
  from s have "s_safe (fst (api_summary st)) = 1"
    by (simp add: ds bare_device_def)
  with r a b m d e show ?thesis
    unfolding Let_def h_def [symmetric] c_def [symmetric] st_def [symmetric] by blast
qed

subsection \<open>Readers between the critical sections\<close>

lemma exec_sections_simps:
  "exec_sections [] st = st"
  "exec_sections (x # xs) st = exec_sections xs (exec_section x st)"
  "exec_sections (xs @ ys) st = exec_sections ys (exec_sections xs st)"
  by (simp_all add: exec_sections_def)

lemma seen_ips_up_hosts: "seen_ips hs = host ` set (up_hosts hs)"
  by (auto simp add: seen_ips_def up_hosts_def)

lemma sections_of_hosts_eq:
  "sections_of_hosts cidr t hs seen =
     map (MergeHost t) (up_hosts hs) @ [FinishCycle cidr t (seen \<union> seen_ips hs)]"
  by (induction hs arbitrary: seen) (simp_all add: up_hosts_def seen_ips_simps)

lemma exec_sections_MergeHost: "exec_sections (map (MergeHost t) hs) st = merged t hs st"
  by (induction hs arbitrary: st) (simp_all add: exec_sections_simps merged_def)

lemma snd_scan_hosts_merged: "snd (scan_hosts t hs seen st) = merged t (up_hosts hs) st"
  by (induction hs arbitrary: seen st) (simp_all add: up_hosts_def merged_def)

lemma scan_once_sections: "scan_once c st = exec_sections (critical_sections c) st"
proof (cases "sweep c")
  case None
  then show ?thesis by (simp add: scan_once_None critical_sections_def exec_sections_simps)
next
  case (Some hs)
  then show ?thesis
    by (simp add: scan_once_Some critical_sections_def sections_of_hosts_eq exec_sections_simps
        exec_sections_MergeHost snd_scan_hosts_merged)
qed

lemma conc_steps_invariant:
  assumes "conc_step\<^sup>*\<^sup>* (st, xs, None) cfg"
  shows "case cfg of (s, ys, ob) \<Rightarrow>
           \<exists>k \<le> length xs. ys = drop k xs \<and> s = exec_sections (take k xs) st
             \<and> (\<forall>obs. ob = Some obs \<longrightarrow>
                   (\<exists>j \<le> k. obs = fst (api_summary (exec_sections (take j xs) st))))"
  using assms
proof (induction rule: rtranclp_induct)
  case base
  show ?case by (auto simp add: exec_sections_simps intro!: exI [of _ 0])
next
  case (step y z)
  from step.hyps(2) show ?case
  proof (cases rule: conc_step.cases)
    case (writer s x ys ob)
    with step.IH obtain k where k: "k \<le> length xs" "x # ys = drop k xs"
      "s = exec_sections (take k xs) st"
      "\<forall>obs. ob = Some obs \<longrightarrow>
          (\<exists>j \<le> k. obs = fst (api_summary (exec_sections (take j xs) st)))"
      by auto
    from k(2) have lt: "k < length xs" by (cases "k < length xs") auto
    with k(2) have x: "xs ! k = x" and ys: "ys = drop (Suc k) xs"
      by (simp_all add: Cons_nth_drop_Suc [symmetric])
    from lt x have "take (Suc k) xs = take k xs @ [x]"
      by (simp add: take_Suc_conv_app_nth)
    then have "exec_section x s = exec_sections (take (Suc k) xs) st"
      by (simp add: k(3) exec_sections_simps)
    moreover have "\<forall>obs. ob = Some obs \<longrightarrow>
          (\<exists>j \<le> Suc k. obs = fst (api_summary (exec_sections (take j xs) st)))"
      using k(4) le_Suc_eq by blast
    ultimately show ?thesis
      using writer lt ys by (auto intro!: exI [of _ "Suc k"])
  next
    case (reader s ys)
    with step.IH obtain k where k: "k \<le> length xs" "ys = drop k xs"
      "s = exec_sections (take k xs) st"
      by auto
    with reader show ?thesis
      by (auto simp add: api_summary_snd intro!: exI [of _ k])
  qed
qed

lemma interleaving_between_sections:
  "interleaving (cycle_at 0 [up_host ''10.0.0.5'' []]) initial
     (scan_once (cycle_at 0 [up_host ''10.0.0.5'' []]) initial)
     (fst (api_summary (probe_and_merge 0 (up_host ''10.0.0.5'' []) initial)))"
proof -
  define h where "h = up_host ''10.0.0.5'' []"
  define c where "c = cycle_at 0 [h]"
  define F where "F = FinishCycle ''192.168.1.0/24'' 0 {''10.0.0.5''}"
  define s1 where "s1 = probe_and_merge 0 h initial"
  have cs: "critical_sections c = [MergeHost 0 h, F]"
    by (simp add: critical_sections_def c_def cycle_at_def h_def up_host_def F_def)
  have "conc_step (initial, [MergeHost 0 h, F], None) (exec_section (MergeHost 0 h) initial, [F], None)"
    by (rule conc_step.writer)
  then have a: "conc_step (initial, [MergeHost 0 h, F], None) (s1, [F], None)"
    by (simp add: s1_def)
  have "conc_step (s1, [F], None) (snd (api_summary s1), [F], Some (fst (api_summary s1)))"
    by (rule conc_step.reader)
  then have b: "conc_step (s1, [F], None) (s1, [F], Some (fst (api_summary s1)))"
    by (simp add: api_summary_snd)
  have d: "conc_step (s1, [F], Some (fst (api_summary s1)))
             (exec_section F s1, [], Some (fst (api_summary s1)))"
    by (rule conc_step.writer)
  have e: "exec_section F s1 = scan_once c initial"
    by (simp add: scan_once_sections cs exec_sections_simps s1_def)
  from a b d have "conc_step\<^sup>*\<^sup>* (initial, [MergeHost 0 h, F], None)
                     (exec_section F s1, [], Some (fst (api_summary s1)))"
    by (meson rtranclp.rtrancl_into_rtrancl rtranclp.rtrancl_refl)
  then have "conc_step\<^sup>*\<^sup>* (initial, critical_sections c, None)
                     (scan_once c initial, [], Some (fst (api_summary s1)))"
    by (simp only: cs e)
  then show ?thesis
    by (simp only: interleaving_def c_def h_def s1_def)
qed

lemma summary_between_sections:
  "fst (api_summary (probe_and_merge 0 (up_host ''10.0.0.5'' []) initial)) =
     \<lparr>s_network = ''0.0.0.0/0'', s_total = 1, s_safe = 1, s_vulnerable = 0, s_history = [],
      s_vuln_ports = [], s_devices = [device_row ''10.0.0.5'' (bare_device ''10.0.0.5'' 0)]\<rparr>"
  by (simp add: api_summary_def initial_def up_host_def bare_device_def probe_and_merge_def
      merge_host_def merge_record_def sorted_ports_def Let_def)

text \<open>
  Claim C1, as the code has it. Each \<^verbatim>\<open>with lock\<close> block is atomic, the cycle is not. In
  every interleaving of \<^verbatim>\<open>scan_once\<close> with \<^verbatim>\<open>api_summary\<close> the state left is that of
  \<^verbatim>\<open>scan_once\<close> alone, and the reader sees either the state after the whole cycle or the
  state before it with the first \<open>k\<close> live hosts of the sweep merged (none, when \<open>k = 0\<close>)
  and neither eviction nor the history append applied yet.
\<close>

theorem interleaving_prefix:
  assumes "interleaving c st st' obs"
  shows "st' = scan_once c st
       \<and> (obs = fst (api_summary (scan_once c st))
          \<or> (\<exists>hs k. sweep c = Some hs \<and> k \<le> length (up_hosts hs)
                \<and> obs = fst (api_summary (merged (now c) (take k (up_hosts hs)) st))))"
proof -
  let ?xs = "critical_sections c"
  from assms have "conc_step\<^sup>*\<^sup>* (st, ?xs, None) (st', [], Some obs)"
    by (simp add: interleaving_def)
  from conc_steps_invariant [OF this] obtain k j where
    k: "k \<le> length ?xs" "[] = drop k ?xs" "st' = exec_sections (take k ?xs) st"
    and j: "j \<le> k" "obs = fst (api_summary (exec_sections (take j ?xs) st))"
    by auto
  from k(1,2) have "k = length ?xs" by simp
  with k(3) have fin: "st' = scan_once c st" by (simp add: scan_once_sections)
  have "obs = fst (api_summary (scan_once c st))
          \<or> (\<exists>hs k. sweep c = Some hs \<and> k \<le> length (up_hosts hs)
                \<and> obs = fst (api_summary (merged (now c) (take k (up_hosts hs)) st)))"
  proof (cases "j = length ?xs")
    case True
    with j(2) show ?thesis by (simp add: scan_once_sections)
  next
    case False
    with j(1) \<open>k = length ?xs\<close> have lt: "j < length ?xs" by simp
    then obtain hs where hs: "sweep c = Some hs"
      by (cases "sweep c") (auto simp add: critical_sections_def)
    then have xs: "?xs = map (MergeHost (now c)) (up_hosts hs)
                       @ [FinishCycle (local_cidr c) (now c) (seen_ips hs)]"
      by (simp add: critical_sections_def sections_of_hosts_eq)
    with lt have le: "j \<le> length (up_hosts hs)" by simp
    then have "take j ?xs = map (MergeHost (now c)) (take j (up_hosts hs))"
      by (simp add: xs take_map)
    with j(2) have "obs = fst (api_summary (merged (now c) (take j (up_hosts hs)) st))"
      by (simp add: exec_sections_MergeHost)
    with hs le show ?thesis by blast
  qed
  with fin show ?thesis by blast
qed


theorem interleaving_prefix_witness:
  "interleaving (cycle_at 0 [up_host ''10.0.0.5'' []]) initial
     (scan_once (cycle_at 0 [up_host ''10.0.0.5'' []]) initial)
     (fst (api_summary (probe_and_merge 0 (up_host ''10.0.0.5'' []) initial)))
   \<and> (fst (api_summary (probe_and_merge 0 (up_host ''10.0.0.5'' []) initial))
          = fst (api_summary (scan_once (cycle_at 0 [up_host ''10.0.0.5'' []]) initial))
        \<or> (\<exists>hs k. sweep (cycle_at 0 [up_host ''10.0.0.5'' []]) = Some hs
               \<and> k \<le> length (up_hosts hs)
               \<and> fst (api_summary (probe_and_merge 0 (up_host ''10.0.0.5'' []) initial))
                   = fst (api_summary
                       (merged (now (cycle_at 0 [up_host ''10.0.0.5'' []]))
                          (take k (up_hosts hs)) initial))))"
  using interleaving_prefix [OF interleaving_between_sections] interleaving_between_sections
  by blast

text \<open>
  Claim C1 as stated fails: from the empty registry, with one host up, the reader that runs
  between the two critical sections sees one device and an empty history. That is neither the
  state before the cycle (no device) nor the state after it (history \<open>[1]\<close>).
\<close>

theorem interleaving_counterexample:
  "interleaving (cycle_at 0 [up_host ''10.0.0.5'' []]) initial
     (scan_once (cycle_at 0 [up_host ''10.0.0.5'' []]) initial)
     (fst (api_summary (probe_and_merge 0 (up_host ''10.0.0.5'' []) initial)))
   \<and> fst (api_summary (probe_and_merge 0 (up_host ''10.0.0.5'' []) initial))
        \<noteq> fst (api_summary initial)
   \<and> fst (api_summary (probe_and_merge 0 (up_host ''10.0.0.5'' []) initial))
        \<noteq> fst (api_summary (scan_once (cycle_at 0 [up_host ''10.0.0.5'' []]) initial))"
proof -
  have pre: "s_total (fst (api_summary initial)) = 0"
    by (simp add: api_summary_fst initial_def)
  have post: "s_history (fst (api_summary (scan_once (cycle_at 0 [up_host ''10.0.0.5'' []]) initial)))
                = [1]"
    by (simp add: api_summary_fst lastn_def initial_def cycle_at_def up_host_def scan_once_def
        probe_and_merge_def merge_host_def merge_record_def finish_cycle_def stale_ips_def
        sorted_ports_def SCAN_INTERVAL_SEC_def Let_def)
  have mid: "s_total (fst (api_summary (probe_and_merge 0 (up_host ''10.0.0.5'' []) initial))) = 1"
    "s_history (fst (api_summary (probe_and_merge 0 (up_host ''10.0.0.5'' []) initial))) = []"
    by (simp_all add: summary_between_sections)
  from pre mid(1) have "fst (api_summary (probe_and_merge 0 (up_host ''10.0.0.5'' []) initial))
        \<noteq> fst (api_summary initial)"
    by (metis zero_neq_one)
  moreover from post mid(2)
  have "fst (api_summary (probe_and_merge 0 (up_host ''10.0.0.5'' []) initial))
        \<noteq> fst (api_summary (scan_once (cycle_at 0 [up_host ''10.0.0.5'' []]) initial))"
    by (metis list.distinct(1))
  ultimately show ?thesis using interleaving_between_sections by blast
qed

end
